theory Spec2Isabelle
  imports Main "HOL-Library.Word"
begin

unbundle bit_operations_syntax

section \<open>Device data\<close>

text \<open>
  Device arrays (\<^verbatim>\<open>float *d_C\<close>, \<^verbatim>\<open>float *result\<close>, the \<^verbatim>\<open>__shared__\<close> accumulator
  cache) are stores from an index to a value; a write is a function update.  The C
  \<^verbatim>\<open>int\<close> variables of the kernels (\<^verbatim>\<open>tid\<close>, \<^verbatim>\<open>size\<close>, \<^verbatim>\<open>vec\<close>, \<^verbatim>\<open>pos\<close>, ...) are
  integers; the built-in unsigned coordinates \<^verbatim>\<open>threadIdx\<close>, \<^verbatim>\<open>blockIdx\<close>,
  \<^verbatim>\<open>blockDim\<close>, \<^verbatim>\<open>gridDim\<close> are naturals.
\<close>

type_synonym 'a mem = "int \<Rightarrow> 'a"

subsection \<open>Single-precision values and their comparison\<close>

text \<open>
  The voter only compares floats, and the comparison of two IEEE-754 binary32 values is
  a function of their bit patterns: a NaN (exponent all ones, non-zero fraction) is
  unequal to everything, itself included; the two zeros are equal; otherwise two values
  are equal exactly when their bits are.  This is the comparison of the default
  compilation mode; a mode that flushes subnormal operands to zero is not modelled.
\<close>

type_synonym float32 = "32 word"

definition isnan :: "float32 \<Rightarrow> bool" where
  "isnan w \<longleftrightarrow> w AND 0x7F800000 = 0x7F800000 \<and> w AND 0x007FFFFF \<noteq> 0"

definition iszero :: "float32 \<Rightarrow> bool" where
  "iszero w \<longleftrightarrow> w AND 0x7FFFFFFF = 0"

definition float_eq :: "float32 \<Rightarrow> float32 \<Rightarrow> bool" where
  "float_eq a b \<longleftrightarrow> \<not> isnan a \<and> \<not> isnan b \<and> (a = b \<or> (iszero a \<and> iszero b))"

definition float_ne :: "float32 \<Rightarrow> float32 \<Rightarrow> bool" where
  "float_ne a b \<longleftrightarrow> \<not> float_eq a b"

section \<open>The voter: \<^verbatim>\<open>check_correctness\<close>\<close>

text \<open>
  One line of the kernel's \<^verbatim>\<open>printf ("DUE %f %f %f\n", ...)\<close>: the three values it
  prints.  The line does not carry the index; the log below pairs each line with the
  \<^verbatim>\<open>tid\<close> of the thread that printed it.
\<close>

datatype due = DUE float32 float32 float32

type_synonym vstate = "float32 mem \<times> (int \<times> due) list"

text \<open>The body of \<^verbatim>\<open>check_correctness\<close> for the thread whose index is \<open>tid\<close>
  (the parameter \<^verbatim>\<open>size\<close> is written \<open>size'\<close>).\<close>

definition check_correctness_thread :: "int \<Rightarrow> int \<Rightarrow> vstate \<Rightarrow> vstate" where
  "check_correctness_thread size' tid st =
     (case st of (result, out) \<Rightarrow>
        if tid \<ge> size' then (result, out)
        else if float_ne (result tid) (result (tid + size')) then
          (if float_ne (result tid) (result (tid + size' * 2))
              \<and> float_ne (result (tid + size')) (result (tid + size' * 2))
           then (result,
                 out @ [(tid, DUE (result tid) (result (tid + size')) (result (tid + size' * 2)))])
           else (result(tid := result (tid + size' * 2)), out))
        else (result, out))"

text \<open>
  The threads of a one-dimensional launch \<^verbatim>\<open><<<gridDim_x, blockDim_x>>>\<close>, as pairs
  \<open>(blockIdx.x, threadIdx.x)\<close>.
\<close>

definition grid_threads :: "nat \<Rightarrow> nat \<Rightarrow> (nat \<times> nat) list" where
  "grid_threads gridDim_x blockDim_x =
     concat (map (\<lambda>bx. map (\<lambda>tx. (bx, tx)) [0..<blockDim_x]) [0..<gridDim_x])"

text \<open>\<^verbatim>\<open>int tid = threadIdx.x + blockIdx.x * blockDim.x;\<close>\<close>

definition global_tid :: "nat \<Rightarrow> nat \<times> nat \<Rightarrow> int" where
  "global_tid blockDim_x t = (case t of (bx, tx) \<Rightarrow> int tx + int bx * int blockDim_x)"

text \<open>
  The kernel launch.  A launch with an empty grid or an empty block is rejected by the
  runtime and the kernel does not run (\<open>None\<close>).  The kernel has no barrier and no thread
  reads a slot that another thread writes, so the threads are run one after the other.
  The kernel has no loop: the launch has \<open>gridDim_x * blockDim_x\<close> threads, and an index
  \<open>tid\<close> of the buffer is looked at only if one of them has this \<open>tid\<close>.
\<close>

definition check_correctness ::
  "nat \<Rightarrow> nat \<Rightarrow> float32 mem \<Rightarrow> int \<Rightarrow> vstate option" where
  "check_correctness gridDim_x blockDim_x result size' =
     (if gridDim_x = 0 \<or> blockDim_x = 0 then None
      else Some (fold (\<lambda>t. check_correctness_thread size' (global_tid blockDim_x t))
                      (grid_threads gridDim_x blockDim_x) (result, [])))"

subsection \<open>Three concrete result buffers\<close>

text \<open>
  The buffer of the concrete scenario: \<open>size = 4\<close>, \<open>copy0 = [1,2,3,4]\<close>,
  \<open>copy1 = [1,9,3,7]\<close>, \<open>copy2 = [1,2,5,8]\<close>, as binary32 bit patterns; a buffer with
  an upset in \<open>copy0\<close>: \<open>copy0 = [1,2,5,4]\<close>, \<open>copy1 = [1,2,2,7]\<close>,
  \<open>copy2 = [1,2,2,8]\<close>; and a buffer that holds the same quiet NaN in every slot.
\<close>

definition scenario :: "float32 mem" where
  "scenario i =
     (if 0 \<le> i \<and> i < 12 then
        [0x3F800000, 0x40000000, 0x40400000, 0x40800000,
         0x3F800000, 0x41100000, 0x40400000, 0x40E00000,
         0x3F800000, 0x40000000, 0x40A00000, 0x41000000] ! nat i
      else 0)"



section \<open>The dot-product engine: \<^verbatim>\<open>scalarProdGPU\<close>\<close>

text \<open>
  The kernel works on \<^verbatim>\<open>float\<close>.  Its arithmetic is kept abstract: the element type
  \<open>'a\<close> only has to provide \<open>0\<close>, \<open>1\<close>, \<open>+\<close> and \<open>*\<close>, and no law of arithmetic is
  assumed of them (floating-point addition is not associative), so every statement
  below holds for the rounding operations of the device.  The statement
  \<^verbatim>\<open>sum += d_A[pos] * d_B[pos]\<close> is a product followed by a sum, as the source writes it.
  At the type \<open>int\<close> the same definitions compute with exact arithmetic, which is what
  single precision does on integer values up to \<open>2 ^ 24\<close>; the concrete runs below are of
  that kind.  The arrays \<^verbatim>\<open>d_A\<close> and \<^verbatim>\<open>d_B\<close> are only read and are distinct from
  \<^verbatim>\<open>d_C\<close>.
\<close>

subsection \<open>\<^verbatim>\<open>#define IMUL(a, b) __mul24(a, b)\<close>\<close>

text \<open>
  \<^verbatim>\<open>__mul24\<close> multiplies the low 24 bits of its operands, read as signed values, and
  returns the low 32 bits of the product as an \<^verbatim>\<open>int\<close>.
\<close>

definition mul24 :: "int \<Rightarrow> int \<Rightarrow> int" where
  "mul24 x y = signed_take_bit 31 (signed_take_bit 23 x * signed_take_bit 23 y)"

definition IMUL :: "int \<Rightarrow> int \<Rightarrow> int" where
  "IMUL a b = mul24 a b"

subsection \<open>The loops of one thread\<close>

text \<open>
  \<^verbatim>\<open>ACCUM_N\<close> is a compile-time constant of the source (\<^verbatim>\<open>#define ACCUM_N 1024\<close>); it
  is a parameter here, so that statements can range over its value, and
  \<open>ACCUM_N_1024\<close> is the value of the source.  The loops advance by \<^verbatim>\<open>ACCUM_N\<close>, by
  \<^verbatim>\<open>blockDim.x\<close> and by \<^verbatim>\<open>gridDim.x\<close>; a kernel with \<open>ACCUM_N \<le> 0\<close> does not compile
  (it declares an array of \<^verbatim>\<open>ACCUM_N*3\<close> floats) and a launch with an empty grid or
  block does not run, which \<open>scalarProdGPU\<close> below checks before any loop is entered.
  The guards \<open>0 < ACCUM_N\<close>, \<open>0 < blockDim_x\<close> and \<open>0 < gridDim_x\<close> in the loop
  conditions record this.

  The \<^verbatim>\<open>int\<close> variables of the kernel (\<^verbatim>\<open>vec\<close>, \<^verbatim>\<open>vectorBase\<close>, \<^verbatim>\<open>vectorEnd\<close>,
  \<^verbatim>\<open>iAccum\<close>, \<^verbatim>\<open>pos\<close>, \<^verbatim>\<open>stride\<close>) are integers here and, \<^verbatim>\<open>IMUL\<close> apart, their
  arithmetic is that of the integers.  This is the arithmetic of the source as long as
  every sum stays below \<open>2 ^ 31\<close>; the loops only add to a variable that is below its
  bound, so the sums are below
  \<open>vectorN + gridDim.x\<close> (\<^verbatim>\<open>vec += gridDim.x\<close>),
  \<open>ACCUM_N + blockDim.x\<close> (\<^verbatim>\<open>iAccum += blockDim.x\<close>) and
  \<open>vectorEnd + ACCUM_N\<close> (\<^verbatim>\<open>pos += ACCUM_N\<close>).
  Beyond this range the source has no defined result and the definitions below are not
  a statement about it: with \<open>elementN = 8388607\<close> and \<open>vec = 255\<close> the \<^verbatim>\<open>pos\<close> of lane
  \<open>255\<close> reaches \<open>2147482624\<close> and the next sum is \<open>2 ^ 31\<close>, where \<open>dot_loop\<close> ends.
  Every statement below about a value that the kernel computes assumes
  \<open>elementN * vectorN + ACCUM_N \<le> 2 ^ 31\<close>, \<open>vectorN + gridDim.x \<le> 2 ^ 31\<close> and
  \<open>ACCUM_N + blockDim.x \<le> 2 ^ 31\<close>, together with the operand range of \<^verbatim>\<open>IMUL\<close>.
  The statements about the sentinel and about \<open>vectorN \<le> 0\<close> do not depend on what the
  loops compute.
\<close>

definition ACCUM_N_1024 :: int where
  "ACCUM_N_1024 = 1024"

text \<open>
  \<^verbatim>\<open>for (int pos = vectorBase + iAccum; pos < vectorEnd; pos += ACCUM_N)
    sum += d_A[pos] * d_B[pos];\<close>
\<close>

function dot_loop :: "int \<Rightarrow> 'a::{zero,one,plus,times} mem \<Rightarrow> 'a mem \<Rightarrow> int \<Rightarrow> int \<Rightarrow> 'a \<Rightarrow> 'a" where
  "dot_loop ACCUM_N d_A d_B vectorEnd pos sum_acc =
     (if pos < vectorEnd \<and> 0 < ACCUM_N
      then dot_loop ACCUM_N d_A d_B vectorEnd (pos + ACCUM_N) (sum_acc + d_A pos * d_B pos)
      else sum_acc)"
  by pat_completeness auto
termination
  by (relation "measure (\<lambda>(ACCUM_N, d_A, d_B, vectorEnd, pos, sum_acc). nat (vectorEnd - pos))") auto

text \<open>
  \<^verbatim>\<open>for (int iAccum = threadIdx.x; iAccum < ACCUM_N; iAccum += blockDim.x) {
    float sum = 0;
    ...
    accumResult[iAccum+ACCUM_N*threadIdx.y] = sum;
  }\<close>
\<close>

function accumulate ::
  "int \<Rightarrow> nat \<Rightarrow> 'a::{zero,one,plus,times} mem \<Rightarrow> 'a mem \<Rightarrow> int \<Rightarrow> int \<Rightarrow> nat \<Rightarrow> int
   \<Rightarrow> 'a mem \<Rightarrow> 'a mem" where
  "accumulate ACCUM_N blockDim_x d_A d_B vectorBase vectorEnd threadIdx_y iAccum accumResult =
     (if iAccum < ACCUM_N \<and> 0 < blockDim_x
      then accumulate ACCUM_N blockDim_x d_A d_B vectorBase vectorEnd threadIdx_y
             (iAccum + int blockDim_x)
             (accumResult(iAccum + ACCUM_N * int threadIdx_y :=
                dot_loop ACCUM_N d_A d_B vectorEnd (vectorBase + iAccum) 0))
      else accumResult)"
  by pat_completeness auto
termination
  by (relation "measure (\<lambda>(ACCUM_N, blockDim_x, d_A, d_B, vectorBase, vectorEnd, threadIdx_y,
                            iAccum, accumResult). nat (ACCUM_N - iAccum))") auto

text \<open>
  \<^verbatim>\<open>for (int iAccum = threadIdx.x; iAccum < stride; iAccum += blockDim.x)
    accumResult[iAccum+ACCUM_N*threadIdx.y] += accumResult[stride + iAccum+ACCUM_N*threadIdx.y];\<close>
\<close>

function reduce ::
  "int \<Rightarrow> nat \<Rightarrow> int \<Rightarrow> nat \<Rightarrow> int \<Rightarrow> 'a::{zero,one,plus,times} mem \<Rightarrow> 'a mem" where
  "reduce ACCUM_N blockDim_x stride threadIdx_y iAccum accumResult =
     (if iAccum < stride \<and> 0 < blockDim_x
      then reduce ACCUM_N blockDim_x stride threadIdx_y (iAccum + int blockDim_x)
             (accumResult(iAccum + ACCUM_N * int threadIdx_y :=
                accumResult (iAccum + ACCUM_N * int threadIdx_y)
                + accumResult (stride + iAccum + ACCUM_N * int threadIdx_y)))
      else accumResult)"
  by pat_completeness auto
termination
  by (relation "measure (\<lambda>(ACCUM_N, blockDim_x, stride, threadIdx_y, iAccum, accumResult).
                            nat (stride - iAccum))") auto

declare dot_loop.simps [simp del] accumulate.simps [simp del] reduce.simps [simp del]

subsection \<open>The statements of the kernel\<close>

text \<open>
  The threads of a block, as pairs \<open>(threadIdx.x, threadIdx.y)\<close>.
\<close>

definition block_threads :: "nat \<Rightarrow> nat \<Rightarrow> (nat \<times> nat) list" where
  "block_threads blockDim_x blockDim_y =
     concat (map (\<lambda>ty. map (\<lambda>tx. (tx, ty)) [0..<blockDim_x]) [0..<blockDim_y])"

text \<open>
  The bounds of the loops over \<^verbatim>\<open>vec\<close> and over \<^verbatim>\<open>stride\<close> depend on \<^verbatim>\<open>blockIdx.x\<close>,
  \<^verbatim>\<open>gridDim.x\<close>, \<^verbatim>\<open>vectorN\<close> and \<^verbatim>\<open>ACCUM_N\<close> only: all threads of a block execute the same
  sequence of statements and meet the same barriers.  The kernel body of a block is
  this sequence.  A statement is the barrier \<^verbatim>\<open>__syncthreads()\<close> or a piece of code
  that a thread runs with its own \<^verbatim>\<open>threadIdx\<close> on the pair of the block's accumulator
  cache \<^verbatim>\<open>accumResult\<close> and the global array \<^verbatim>\<open>d_C\<close>.
\<close>

datatype 'a stmt = Sync | Code "nat \<times> nat \<Rightarrow> 'a mem \<times> 'a mem \<Rightarrow> 'a mem \<times> 'a mem"

text \<open>The accumulation loop of the thread \<open>t\<close>.\<close>

definition accumulate_code ::
  "int \<Rightarrow> nat \<Rightarrow> 'a::{zero,one,plus,times} mem \<Rightarrow> 'a mem \<Rightarrow> int \<Rightarrow> int
   \<Rightarrow> nat \<times> nat \<Rightarrow> 'a mem \<times> 'a mem \<Rightarrow> 'a mem \<times> 'a mem" where
  "accumulate_code ACCUM_N blockDim_x d_A d_B vectorBase vectorEnd t st =
     (case t of (threadIdx_x, threadIdx_y) \<Rightarrow>
        (accumulate ACCUM_N blockDim_x d_A d_B vectorBase vectorEnd threadIdx_y
           (int threadIdx_x) (fst st),
         snd st))"

text \<open>The inner loop of one reduction round, for the thread \<open>t\<close>.\<close>

definition reduce_code ::
  "int \<Rightarrow> nat \<Rightarrow> int \<Rightarrow> nat \<times> nat
   \<Rightarrow> 'a::{zero,one,plus,times} mem \<times> 'a mem \<Rightarrow> 'a mem \<times> 'a mem" where
  "reduce_code ACCUM_N blockDim_x stride t st =
     (case t of (threadIdx_x, threadIdx_y) \<Rightarrow>
        (reduce ACCUM_N blockDim_x stride threadIdx_y (int threadIdx_x) (fst st), snd st))"

text \<open>\<^verbatim>\<open>if (threadIdx.x == 0) d_C[vec+256*threadIdx.y] = accumResult[0+ACCUM_N*threadIdx.y];\<close>\<close>

definition write_result :: "int \<Rightarrow> int \<Rightarrow> 'a mem \<Rightarrow> nat \<times> nat \<Rightarrow> 'a mem \<Rightarrow> 'a mem" where
  "write_result ACCUM_N vec accumResult t d_C =
     (case t of (threadIdx_x, threadIdx_y) \<Rightarrow>
        if threadIdx_x = 0
        then d_C(vec + 256 * int threadIdx_y := accumResult (0 + ACCUM_N * int threadIdx_y))
        else d_C)"

definition write_code ::
  "int \<Rightarrow> int \<Rightarrow> nat \<times> nat \<Rightarrow> 'a mem \<times> 'a mem \<Rightarrow> 'a mem \<times> 'a mem" where
  "write_code ACCUM_N vec t st = (fst st, write_result ACCUM_N vec (fst st) t (snd st))"

text \<open>\<^verbatim>\<open>if (threadIdx.x == 0 && threadIdx.y == 0 && blockIdx.x == 0) d_C[0] = 1;\<close>\<close>

definition sentinel_thread :: "nat \<Rightarrow> nat \<times> nat \<Rightarrow> bool" where
  "sentinel_thread blockIdx_x t =
     (case t of (threadIdx_x, threadIdx_y) \<Rightarrow>
        threadIdx_x = 0 \<and> threadIdx_y = 0 \<and> blockIdx_x = 0)"

definition write_sentinel :: "nat \<Rightarrow> nat \<times> nat \<Rightarrow> 'a::{zero,one,plus,times} mem \<Rightarrow> 'a mem" where
  "write_sentinel blockIdx_x t d_C = (if sentinel_thread blockIdx_x t then d_C(0 := 1) else d_C)"

definition sentinel_code ::
  "nat \<Rightarrow> nat \<times> nat \<Rightarrow> 'a::{zero,one,plus,times} mem \<times> 'a mem \<Rightarrow> 'a mem \<times> 'a mem" where
  "sentinel_code blockIdx_x t st = (fst st, write_sentinel blockIdx_x t (snd st))"

text \<open>
  \<^verbatim>\<open>for (int stride = ACCUM_N / 2; stride > 0; stride >>= 1) {
    __syncthreads();
    for (...) ...
  }\<close>
\<close>

function rounds :: "int \<Rightarrow> nat \<Rightarrow> int \<Rightarrow> 'a::{zero,one,plus,times} stmt list" where
  "rounds ACCUM_N blockDim_x stride =
     (if stride > 0
      then Sync # Code (reduce_code ACCUM_N blockDim_x stride)
           # rounds ACCUM_N blockDim_x (stride div 2)
      else [])"
  by pat_completeness auto
termination
  by (relation "measure (\<lambda>(ACCUM_N, blockDim_x, stride). nat stride)") auto

text \<open>
  \<^verbatim>\<open>for (int vec = blockIdx.x; vec < vectorN; vec += gridDim.x) { ... }\<close>: per vector the
  accumulation loop, the reduction rounds and the write of the result.  No barrier
  stands after the last round, nor between the write and the accumulation loop of the
  next vector.
\<close>

function vectors ::
  "int \<Rightarrow> nat \<Rightarrow> nat \<Rightarrow> 'a::{zero,one,plus,times} mem \<Rightarrow> 'a mem \<Rightarrow> int \<Rightarrow> int \<Rightarrow> int
   \<Rightarrow> 'a stmt list" where
  "vectors ACCUM_N gridDim_x blockDim_x d_A d_B vectorN elementN vec =
     (if vec < vectorN \<and> 0 < gridDim_x
      then
        (let vectorBase = IMUL elementN vec;
             vectorEnd = vectorBase + elementN
         in Code (accumulate_code ACCUM_N blockDim_x d_A d_B vectorBase vectorEnd)
            # rounds ACCUM_N blockDim_x (ACCUM_N div 2)
            @ [Code (write_code ACCUM_N vec)])
        @ vectors ACCUM_N gridDim_x blockDim_x d_A d_B vectorN elementN (vec + int gridDim_x)
      else [])"
  by pat_completeness auto
termination
  by (relation "measure (\<lambda>(ACCUM_N, gridDim_x, blockDim_x, d_A, d_B, vectorN, elementN, vec).
                            nat (vectorN - vec))") auto

declare rounds.simps [simp del] vectors.simps [simp del]

text \<open>The body of the kernel for the block \<open>blockIdx_x\<close>.\<close>

definition kernel_body ::
  "int \<Rightarrow> nat \<Rightarrow> nat \<Rightarrow> 'a::{zero,one,plus,times} mem \<Rightarrow> 'a mem \<Rightarrow> int \<Rightarrow> int \<Rightarrow> nat
   \<Rightarrow> 'a stmt list" where
  "kernel_body ACCUM_N gridDim_x blockDim_x d_A d_B vectorN elementN blockIdx_x =
     vectors ACCUM_N gridDim_x blockDim_x d_A d_B vectorN elementN (int blockIdx_x)
     @ [Code (sentinel_code blockIdx_x)]"

subsection \<open>One thread block\<close>

text \<open>
  The barriers cut the body into intervals.  No thread passes a barrier before all
  threads of the block have reached it, so the block runs interval after interval; how
  the threads advance inside an interval is not determined by the kernel.  A run takes
  them one after the other: \<open>run_interval ts cs\<close> lets each thread of the list \<open>ts\<close>, in
  this order, run the pieces of code \<open>cs\<close> of the interval.  Every order is an execution
  the device may produce.  In this kernel the accesses of two threads inside one
  interval meet in one place only: after the last barrier of a vector, thread
  \<open>(0, ty)\<close> reads \<^verbatim>\<open>accumResult[1+ACCUM_N*ty]\<close> in the round of stride \<open>1\<close>, and the
  thread that owns lane \<open>1\<close> writes this slot in the accumulation loop of the next
  vector.  The two outcomes of this pair are those of the two orders of the two
  threads; everywhere else the threads of an interval touch disjoint slots and the
  order is immaterial.
\<close>

definition run_interval ::
  "(nat \<times> nat) list \<Rightarrow> (nat \<times> nat \<Rightarrow> 'a mem \<times> 'a mem \<Rightarrow> 'a mem \<times> 'a mem) list
   \<Rightarrow> 'a mem \<times> 'a mem \<Rightarrow> 'a mem \<times> 'a mem" where
  "run_interval ts cs st = fold (\<lambda>t. fold (\<lambda>c. c t) cs) ts st"

text \<open>
  \<open>run_body sched j cs p st\<close> runs the statements \<open>p\<close> from the state \<open>st\<close>, where \<open>j\<close>
  counts the barriers passed so far and \<open>cs\<close> is the code met since the last barrier;
  \<open>sched j\<close> is the order in which the threads run the interval after the \<open>j\<close>-th
  barrier.
\<close>

fun run_body ::
  "(nat \<Rightarrow> (nat \<times> nat) list) \<Rightarrow> nat
   \<Rightarrow> (nat \<times> nat \<Rightarrow> 'a mem \<times> 'a mem \<Rightarrow> 'a mem \<times> 'a mem) list
   \<Rightarrow> 'a stmt list \<Rightarrow> 'a mem \<times> 'a mem \<Rightarrow> 'a mem \<times> 'a mem" where
  "run_body sched j cs [] st = run_interval (sched j) cs st"
| "run_body sched j cs (Sync # p) st = run_body sched (Suc j) [] p (run_interval (sched j) cs st)"
| "run_body sched j cs (Code c # p) st = run_body sched j (cs @ [c]) p st"

text \<open>
  The number of barriers of a body, and the orders \<open>sched\<close> of a block with
  \<open>blockDim_x * blockDim_y\<close> threads that are orders of its threads: in each interval
  of the body every thread of the block is listed once.
\<close>

definition syncs :: "'a stmt list \<Rightarrow> nat" where
  "syncs p = length (filter (\<lambda>s. case s of Sync \<Rightarrow> True | Code c \<Rightarrow> False) p)"

definition sched_ok :: "nat \<Rightarrow> nat \<Rightarrow> (nat \<Rightarrow> (nat \<times> nat) list) \<Rightarrow> 'a stmt list \<Rightarrow> bool" where
  "sched_ok blockDim_x blockDim_y sched p =
     list_all (\<lambda>j. distinct (sched j)
                    \<and> set (sched j) = set (block_threads blockDim_x blockDim_y))
              [0..<Suc (syncs p)]"

text \<open>
  The block \<open>blockIdx_x\<close>: its body on a cache with arbitrary initial contents
  \<open>accumResult0\<close> (shared memory is not initialised) and the array \<^verbatim>\<open>d_C\<close>.
\<close>

definition run_block ::
  "int \<Rightarrow> nat \<Rightarrow> nat \<Rightarrow> 'a::{zero,one,plus,times} mem \<Rightarrow> 'a mem \<Rightarrow> int \<Rightarrow> int
   \<Rightarrow> (nat \<Rightarrow> nat \<Rightarrow> (nat \<times> nat) list) \<Rightarrow> (nat \<Rightarrow> 'a mem) \<Rightarrow> nat \<Rightarrow> 'a mem \<Rightarrow> 'a mem" where
  "run_block ACCUM_N gridDim_x blockDim_x d_A d_B vectorN elementN sched accumResult0
             blockIdx_x d_C =
     snd (run_body (sched blockIdx_x) 0 []
            (kernel_body ACCUM_N gridDim_x blockDim_x d_A d_B vectorN elementN blockIdx_x)
            (accumResult0 blockIdx_x, d_C))"

subsection \<open>The kernel launch\<close>

text \<open>
  The launch \<^verbatim>\<open>scalarProdGPU<<<gridDim_x, dim3(blockDim_x, blockDim_y)>>>(d_C, d_A, d_B,
  vectorN, elementN)\<close>.  Thread blocks do not synchronise with each other and the device
  may run them in any order: \<open>blocks\<close> is the order of one run, a list of the block
  indices; \<open>sched b j\<close> is the order of the threads of block \<open>b\<close> in its interval \<open>j\<close>,
  and \<open>accumResult0 b\<close> is what the block's accumulator cache holds when the block
  starts.

  The result is \<open>None\<close> when there is no run to speak of: an empty grid or block (the
  launch is rejected), \<open>ACCUM_N \<le> 0\<close> (no such kernel), a list \<open>blocks\<close> that is not an
  ordering of the grid's blocks, a \<open>sched\<close> that is not an order of the threads in some
  interval of some block, or more than three rows of threads when some vector is
  processed: row \<open>threadIdx.y \<ge> 3\<close> would index past the \<^verbatim>\<open>ACCUM_N*3\<close> slots of
  \<^verbatim>\<open>accumResult\<close>.
\<close>

definition scalarProdGPU ::
  "int \<Rightarrow> nat \<Rightarrow> nat \<Rightarrow> nat \<Rightarrow> nat list \<Rightarrow> (nat \<Rightarrow> nat \<Rightarrow> (nat \<times> nat) list) \<Rightarrow> (nat \<Rightarrow> 'a mem)
   \<Rightarrow> 'a::{zero,one,plus,times} mem \<Rightarrow> 'a mem \<Rightarrow> 'a mem \<Rightarrow> int \<Rightarrow> int \<Rightarrow> 'a mem option" where
  "scalarProdGPU ACCUM_N gridDim_x blockDim_x blockDim_y blocks sched accumResult0
                 d_C d_A d_B vectorN elementN =
     (if gridDim_x = 0 \<or> blockDim_x = 0 \<or> blockDim_y = 0 \<or> ACCUM_N \<le> 0 then None
      else if \<not> (distinct blocks \<and> set blocks = {0..<gridDim_x}) then None
      else if \<not> list_all (\<lambda>b. sched_ok blockDim_x blockDim_y (sched b)
                                (kernel_body ACCUM_N gridDim_x blockDim_x d_A d_B vectorN
                                   elementN b))
                     blocks then None
      else if 3 < blockDim_y \<and> 0 < vectorN then None
      else Some (fold (run_block ACCUM_N gridDim_x blockDim_x d_A d_B vectorN elementN
                         sched accumResult0)
                      blocks d_C))"

text \<open>
  The two orders of the threads used in the concrete runs below: by rows with
  \<^verbatim>\<open>threadIdx.x\<close> ascending in every interval, and the reverse of it.
\<close>

definition ascending :: "nat \<Rightarrow> nat \<Rightarrow> nat \<Rightarrow> nat \<Rightarrow> (nat \<times> nat) list" where
  "ascending blockDim_x blockDim_y b j = block_threads blockDim_x blockDim_y"

definition descending :: "nat \<Rightarrow> nat \<Rightarrow> nat \<Rightarrow> nat \<Rightarrow> (nat \<times> nat) list" where
  "descending blockDim_x blockDim_y b j = rev (block_threads blockDim_x blockDim_y)"

subsection \<open>The sequential reference\<close>

text \<open>
  The reference of the specification for one vector whose first element is at offset
  \<open>base\<close>, with \<open>accumN = 2 ^ k\<close> lanes: lane \<open>lane\<close> sums the products at the positions
  \<open>lane, lane + accumN, lane + 2 * accumN, ...\<close> of the vector, in this order, starting
  from \<open>0\<close>; the partial sums are combined by a binary tree, the stride halving from
  \<open>accumN / 2\<close> down to \<open>1\<close>, each surviving lane adding the value of the lane \<open>stride\<close>
  positions ahead.
\<close>

definition partial_sum ::
  "nat \<Rightarrow> nat \<Rightarrow> 'a::{zero,one,plus,times} mem \<Rightarrow> 'a mem \<Rightarrow> int \<Rightarrow> nat \<Rightarrow> 'a" where
  "partial_sum accumN elementN A B base lane =
     foldl (\<lambda>s i. s + A (base + int i) * B (base + int i)) 0
           (filter (\<lambda>i. i mod accumN = lane) [0..<elementN])"

fun tree_sum :: "nat \<Rightarrow> (nat \<Rightarrow> 'a::{zero,one,plus,times}) \<Rightarrow> 'a" where
  "tree_sum 0 f = f 0"
| "tree_sum (Suc k) f = tree_sum k (\<lambda>i. f i + f (i + 2 ^ k))"

definition reference_dot ::
  "nat \<Rightarrow> nat \<Rightarrow> 'a::{zero,one,plus,times} mem \<Rightarrow> 'a mem \<Rightarrow> int \<Rightarrow> 'a" where
  "reference_dot k elementN A B base = tree_sum k (partial_sum (2 ^ k) elementN A B base)"

subsection \<open>The values of a strided loop variable\<close>

text \<open>
  The values that the variable of \<^verbatim>\<open>for (i = i0; i < n; i += blockDim.x)\<close> takes.
\<close>

definition lanes_of :: "nat \<Rightarrow> int \<Rightarrow> int \<Rightarrow> int set" where
  "lanes_of blockDim_x n i0 = {i. i0 \<le> i \<and> i < n \<and> (i - i0) mod int blockDim_x = 0}"

section \<open>Properties of the voter\<close>








lemma log_of_thread:
  "(j, d) \<in> set (snd (check_correctness_thread size' t (result, []))) \<Longrightarrow> j = t"
  by (auto simp: check_correctness_thread_def split: if_splits)


lemma float_eq_same: "float_eq a b \<Longrightarrow> float_eq b b"
  by (auto simp: float_eq_def)






subsection \<open>The voter on the concrete buffers\<close>









section \<open>Properties of the engine\<close>

subsection \<open>The loops of one thread\<close>

lemma lanes_of_empty: "n \<le> i \<Longrightarrow> lanes_of bd n i = {}"
  by (auto simp: lanes_of_def)

lemma lanes_of_step:
  assumes "0 < bd" "i < n"
  shows "lanes_of bd n i = insert i (lanes_of bd n (i + int bd))"
proof (rule set_eqI)
  fix j
  show "j \<in> lanes_of bd n i \<longleftrightarrow> j \<in> insert i (lanes_of bd n (i + int bd))"
  proof
    assume a: "j \<in> lanes_of bd n i"
    show "j \<in> insert i (lanes_of bd n (i + int bd))"
    proof (cases "j = i")
      case True then show ?thesis by simp
    next
      case False
      from a have ij: "i \<le> j" "j < n" and m: "(j - i) mod int bd = 0"
        by (auto simp: lanes_of_def)
      from m have dv: "int bd dvd (j - i)" by (simp add: dvd_eq_mod_eq_0)
      have pos: "0 < j - i" using ij False by simp
      have "int bd \<le> j - i" using dv pos by (rule zdvd_imp_le)
      moreover have "int bd dvd (j - i) - int bd"
        using dv by (rule dvd_diff) simp
      then have "(j - (i + int bd)) mod int bd = 0"
        by (simp add: dvd_eq_mod_eq_0 [symmetric] diff_diff_eq)
      ultimately show ?thesis using ij by (simp add: lanes_of_def)
    qed
  next
    assume a: "j \<in> insert i (lanes_of bd n (i + int bd))"
    then show "j \<in> lanes_of bd n i"
    proof
      assume "j = i" then show ?thesis using assms by (simp add: lanes_of_def)
    next
      assume b: "j \<in> lanes_of bd n (i + int bd)"
      then have "int bd dvd (j - (i + int bd))" by (simp add: lanes_of_def dvd_eq_mod_eq_0)
      then have "int bd dvd (j - (i + int bd)) + int bd" by (rule dvd_add) simp
      moreover have "(j - (i + int bd)) + int bd = j - i" by simp
      ultimately have "int bd dvd (j - i)" by (simp only:)
      then show ?thesis using b by (simp add: lanes_of_def dvd_eq_mod_eq_0)
    qed
  qed
qed

lemma lanes_of_ge: "j \<in> lanes_of bd n i \<Longrightarrow> i \<le> j \<and> j < n"
  by (simp add: lanes_of_def)

lemma accumulate_char:
  assumes "0 < bd"
  shows "accumulate N bd A B vb ve ty i acc =
         (\<lambda>a. if a - N * int ty \<in> lanes_of bd N i
               then dot_loop N A B ve (vb + (a - N * int ty)) 0 else acc a)"
  using assms
proof (induction N bd A B vb ve ty i acc rule: accumulate.induct)
  case (1 N bd A B vb ve ty i acc)
  show ?case
  proof (cases "i < N")
    case True
    have st: "lanes_of bd N i = insert i (lanes_of bd N (i + int bd))"
      using "1.prems" True by (rule lanes_of_step)
    have IH: "accumulate N bd A B vb ve ty (i + int bd)
               (acc(i + N * int ty := dot_loop N A B ve (vb + i) 0)) =
          (\<lambda>a. if a - N * int ty \<in> lanes_of bd N (i + int bd)
               then dot_loop N A B ve (vb + (a - N * int ty)) 0
               else (acc(i + N * int ty := dot_loop N A B ve (vb + i) 0)) a)"
      by (rule "1.IH") (use True "1.prems" in simp_all)
    show ?thesis
      apply (subst accumulate.simps)
      apply (simp only: True "1.prems" simp_thms if_True IH st)
      apply (rule ext)
      apply (auto simp: algebra_simps)
      done
  next
    case False
    then show ?thesis
      by (subst accumulate.simps) (simp add: lanes_of_empty)
  qed
qed

lemma reduce_char:
  assumes "0 < bd" "0 \<le> i"
  shows "reduce N bd s ty i acc =
         (\<lambda>a. if a - N * int ty \<in> lanes_of bd s i
               then acc a + acc (a + s) else acc a)"
  using assms
proof (induction N bd s ty i acc rule: reduce.induct)
  case (1 N bd s ty i acc)
  show ?case
  proof (cases "i < s")
    case True
    let ?acc1 = "acc(i + N * int ty := acc (i + N * int ty) + acc (s + i + N * int ty))"
    have st: "lanes_of bd s i = insert i (lanes_of bd s (i + int bd))"
      using "1.prems"(1) True by (rule lanes_of_step)
    have IH: "reduce N bd s ty (i + int bd) ?acc1 =
          (\<lambda>a. if a - N * int ty \<in> lanes_of bd s (i + int bd)
               then ?acc1 a + ?acc1 (a + s) else ?acc1 a)"
      by (rule "1.IH") (use True "1.prems" in simp_all)
    have far: "?acc1 a = acc a \<and> ?acc1 (a + s) = acc (a + s)"
      if "a - N * int ty \<in> lanes_of bd s (i + int bd)" for a
    proof -
      have "i + int bd \<le> a - N * int ty" using that by (simp add: lanes_of_def)
      then show ?thesis using "1.prems" True by auto
    qed
    have notin: "i \<notin> lanes_of bd s (i + int bd)"
      using "1.prems"(1) by (simp add: lanes_of_def)
    show ?thesis
      apply (subst reduce.simps)
      apply (simp only: True "1.prems" simp_thms if_True IH st)
      apply (rule ext)
      subgoal for a
        using far[of a] notin by (auto simp: algebra_simps)
      done
  next
    case False
    then show ?thesis
      by (subst reduce.simps) (simp add: lanes_of_empty)
  qed
qed

subsection \<open>The threads of a block\<close>

lemma block_threads_mem:
  "(tx, ty) \<in> set (block_threads bd bdy) \<longleftrightarrow> tx < bd \<and> ty < bdy"
  by (force simp: block_threads_def)

lemma block_threads_distinct: "distinct (block_threads bd bdy)"
proof -
  have "block_threads bd bdy = map prod.swap (List.product [0..<bdy] [0..<bd])"
    by (simp add: block_threads_def product_concat_map map_concat comp_def)
  moreover have "distinct (List.product [0..<bdy] [0..<bd])"
    by (rule distinct_product) simp_all
  ultimately show ?thesis
    by (simp add: distinct_map inj_on_def prod.swap_def prod_eq_iff)
qed

lemma fold_overwrite:
  "fold (\<lambda>t m a. if a \<in> W t then V a else m a) ts m =
   (\<lambda>a. if \<exists>t\<in>set ts. a \<in> W t then V a else m a)"
  by (induction ts arbitrary: m) (auto simp: fun_eq_iff)

lemma fold_combine:
  fixes m :: "int \<Rightarrow> 'a::plus"
  assumes "distinct ts"
    and "\<forall>t\<in>set ts. \<forall>t'\<in>set ts. t \<noteq> t' \<longrightarrow> W t \<inter> W t' = {}"
    and "\<forall>t\<in>set ts. \<forall>t'\<in>set ts. \<forall>a\<in>W t. a + s \<notin> W t'"
  shows "fold (\<lambda>t m a. if a \<in> W t then m a + m (a + s) else m a) ts m =
         (\<lambda>a. if \<exists>t\<in>set ts. a \<in> W t then m a + m (a + s) else m a)"
  using assms
proof (induction ts rule: rev_induct)
  case Nil
  then show ?case by simp
next
  case (snoc t ts)
  let ?M = "\<lambda>a. if \<exists>t\<in>set ts. a \<in> W t then m a + m (a + s) else m a"
  have IH: "fold (\<lambda>t m a. if a \<in> W t then m a + m (a + s) else m a) ts m = ?M"
    using snoc by auto
  have own: "?M a = m a \<and> ?M (a + s) = m (a + s)" if "a \<in> W t" for a
  proof -
    have "\<forall>t'\<in>set ts. a \<notin> W t'"
      using snoc.prems(1,2) that by auto
    moreover have "\<forall>t'\<in>set ts. a + s \<notin> W t'"
      using snoc.prems(3) that by auto
    ultimately show ?thesis by simp
  qed
  have "(if a \<in> W t then ?M a + ?M (a + s) else ?M a) =
        (if \<exists>t\<in>set (ts @ [t]). a \<in> W t then m a + m (a + s) else m a)" for a
  proof (cases "a \<in> W t")
    case True
    then show ?thesis using own[OF True] by simp
  next
    case False
    then show ?thesis by simp
  qed
  then show ?case
    unfolding fold_append comp_def fold_simps IH by (intro ext)
qed

lemma row_unique:
  fixes N :: int
  assumes "0 \<le> a - N * int ty" "a - N * int ty < N" "0 \<le> a - N * int ty'" "a - N * int ty' < N"
  shows "ty = ty'"
proof -
  have "N * (int ty - int ty') < N" "N * (int ty' - int ty) < N"
    using assms by (simp_all add: algebra_simps)
  moreover have "0 < N" using assms by linarith
  ultimately have "int ty - int ty' < 1" "int ty' - int ty < 1"
    by (metis mult.right_neutral mult_less_cancel_left_pos)+
  then show ?thesis by simp
qed

lemma lane_cover:
  fixes N :: int
  assumes "0 < bd" "0 < N" "0 \<le> n" "n \<le> N"
  shows "(\<exists>t\<in>set (block_threads bd bdy). a - N * int (snd t) \<in> lanes_of bd n (int (fst t)))
         \<longleftrightarrow> 0 \<le> a \<and> a < N * int bdy \<and> a mod N < n"
proof
  assume "\<exists>t\<in>set (block_threads bd bdy). a - N * int (snd t) \<in> lanes_of bd n (int (fst t))"
  then obtain tx ty where t: "tx < bd" "ty < bdy" and l: "a - N * int ty \<in> lanes_of bd n (int tx)"
    by (auto simp: block_threads_mem)
  from l have r: "0 \<le> a - N * int ty" "a - N * int ty < n"
    by (auto simp: lanes_of_def)
  have m: "a mod N = a - N * int ty"
  proof -
    have "a mod N = (a - N * int ty) mod N"
      by (metis mod_diff_eq mod_mult_self1_is_0 diff_zero mod_mod_trivial)
    then show ?thesis using r assms by simp
  qed
  have "0 \<le> N * int ty" using assms(2) by simp
  then have "0 \<le> a" using r(1) by linarith
  moreover have "a < N * int bdy"
  proof -
    have "int ty + 1 \<le> int bdy" using t by simp
    then have "N * (int ty + 1) \<le> N * int bdy" using assms(2) by (simp add: mult_left_mono)
    then show ?thesis using r assms by (simp add: algebra_simps)
  qed
  ultimately show "0 \<le> a \<and> a < N * int bdy \<and> a mod N < n" using m r by simp
next
  assume h: "0 \<le> a \<and> a < N * int bdy \<and> a mod N < n"
  let ?ty = "nat (a div N)" and ?j = "a mod N"
  let ?tx = "nat (?j mod int bd)"
  have d0: "0 \<le> a div N" using h assms(2) by (simp add: pos_imp_zdiv_nonneg_iff)
  have "a div N < int bdy"
  proof (rule ccontr)
    assume "\<not> a div N < int bdy"
    then have "N * int bdy \<le> N * (a div N)" using assms(2) by (simp add: mult_left_mono)
    moreover have "N * (a div N) \<le> a"
      using assms(2) by (metis mult_div_mod_eq add_increasing2 pos_mod_sign order_refl)
    ultimately show False using h by simp
  qed
  then have ty: "?ty < bdy" using d0 by simp
  have j0: "0 \<le> ?j" using assms(2) by simp
  have tx: "?tx < bd" using assms(1) by (simp add: nat_less_iff)
  have "a - N * int ?ty = ?j" using d0 by (simp add: minus_mult_div_eq_mod)
  moreover have "?j \<in> lanes_of bd n (int ?tx)"
    using assms(1) h j0 by (simp add: lanes_of_def zmod_le_nonneg_dividend)
  ultimately show "\<exists>t\<in>set (block_threads bd bdy). a - N * int (snd t) \<in> lanes_of bd n (int (fst t))"
    using tx ty by (metis block_threads_mem fst_conv snd_conv)
qed

lemma lanes_mod:
  fixes N :: int
  assumes "a - N * int ty \<in> lanes_of bd n (int tx)" "n \<le> N"
  shows "a mod N = a - N * int ty"
proof -
  have r: "0 \<le> a - N * int ty" "a - N * int ty < N"
    using assms by (auto simp: lanes_of_def)
  have "a mod N = (a - N * int ty) mod N"
    by (metis mod_diff_eq mod_mult_self1_is_0 diff_zero mod_mod_trivial)
  then show ?thesis using r by simp
qed

subsection \<open>The intervals without a conflict\<close>

lemma fold_fst:
  "fold (\<lambda>t st. (F t (fst st), snd st)) ts st = (fold F ts (fst st), snd st)"
  by (induction ts arbitrary: st) simp_all

lemma run_interval_single:
  "run_interval ts [c] st = fold c ts st"
  by (simp add: run_interval_def)

lemma accumulate_overwrite:
  fixes N :: int
  assumes "0 < bd"
  shows "accumulate N bd A B vb ve ty (int tx) m a =
         (if a - N * int ty \<in> lanes_of bd N (int tx)
          then dot_loop N A B ve (vb + a mod N) 0 else m a)"
  using lanes_mod[of a N ty bd N tx] by (simp add: accumulate_char[OF assms])

lemma threads_cover:
  fixes N :: int
  assumes "0 < bd" "0 < N" "0 \<le> n" "n \<le> N" "set ts = set (block_threads bd bdy)"
  shows "(\<exists>t\<in>set ts. a - N * int (snd t) \<in> lanes_of bd n (int (fst t)))
         \<longleftrightarrow> 0 \<le> a \<and> a < N * int bdy \<and> a mod N < n"
  unfolding assms(5) by (rule lane_cover[OF assms(1-4)])

lemma interval_accumulate:
  fixes N :: int and st :: "'a::{zero,one,plus,times} mem \<times> 'a mem"
  assumes "0 < bd" "0 < N" "set ts = set (block_threads bd bdy)"
  shows "run_interval ts [accumulate_code N bd A B vb ve] st =
         (\<lambda>a. if 0 \<le> a \<and> a < N * int bdy then dot_loop N A B ve (vb + a mod N) 0 else fst st a,
          snd st)"
proof -
  let ?W = "\<lambda>t. {a. a - N * int (snd t) \<in> lanes_of bd N (int (fst t))}"
  let ?V = "\<lambda>a. dot_loop N A B ve (vb + a mod N) 0"
  have th: "accumulate_code N bd A B vb ve =
            (\<lambda>t st. ((\<lambda>t m a. if a \<in> ?W t then ?V a else m a) t (fst st), snd st))"
    by (intro ext) (auto simp: accumulate_code_def accumulate_overwrite[OF assms(1)]
                          split: prod.splits)
  have cov: "(\<exists>t\<in>set ts. a \<in> ?W t) \<longleftrightarrow> 0 \<le> a \<and> a < N * int bdy" for a
    using threads_cover[OF assms(1,2) _ _ assms(3), of N a] assms(2) by simp
  let ?F = "\<lambda>t (m :: int \<Rightarrow> 'a) a. if a \<in> ?W t then ?V a else m a"
  have "run_interval ts [accumulate_code N bd A B vb ve] st =
        fold (\<lambda>t st. (?F t (fst st), snd st)) ts st"
    by (simp only: run_interval_single th)
  also have "\<dots> = (fold ?F ts (fst st), snd st)" by (rule fold_fst)
  also have "fold ?F ts (fst st) = (\<lambda>a. if \<exists>t\<in>set ts. a \<in> ?W t then ?V a else fst st a)"
    by (rule fold_overwrite)
  finally show ?thesis unfolding cov .
qed

lemma reduce_combine:
  fixes N :: int and m :: "int \<Rightarrow> 'a::{zero,one,plus,times}"
  assumes "0 < bd"
  shows "reduce N bd s ty (int tx) m a =
         (if a - N * int ty \<in> lanes_of bd s (int tx) then m a + m (a + s) else m a)"
  by (simp add: reduce_char[OF assms])

lemma interval_reduce:
  fixes N :: int and st :: "'a::{zero,one,plus,times} mem \<times> 'a mem"
  assumes "0 < bd" "0 < N" "0 < s" "2 * s \<le> N"
    and "distinct ts" "set ts = set (block_threads bd bdy)"
  shows "run_interval ts [reduce_code N bd s] st =
         (\<lambda>a. if 0 \<le> a \<and> a < N * int bdy \<and> a mod N < s
               then fst st a + fst st (a + s) else fst st a,
          snd st)"
proof -
  let ?W = "\<lambda>t. {a. a - N * int (snd t) \<in> lanes_of bd s (int (fst t))}"
  have th: "reduce_code N bd s =
            (\<lambda>t st. ((\<lambda>t (m :: int \<Rightarrow> 'a) a. if a \<in> ?W t then m a + m (a + s) else m a) t (fst st),
                      snd st))"
    by (intro ext) (auto simp: reduce_code_def reduce_combine[OF assms(1)] split: prod.splits)
  have sN: "s \<le> N" using assms by simp
  have cov: "(\<exists>t\<in>set ts. a \<in> ?W t) \<longleftrightarrow> 0 \<le> a \<and> a < N * int bdy \<and> a mod N < s" for a
    using threads_cover[OF assms(1,2) _ sN assms(6), of a] assms(3) by simp
  have rng: "0 \<le> a - N * int (snd t) \<and> a - N * int (snd t) < s" if "a \<in> ?W t" for a t
    using that lanes_of_ge[of "a - N * int (snd t)" bd s "int (fst t)"] by simp
  have disj: "\<forall>t\<in>set ts. \<forall>t'\<in>set ts. t \<noteq> t' \<longrightarrow> ?W t \<inter> ?W t' = {}"
  proof (intro ballI impI)
    fix t t' assume t: "t \<in> set ts" and t': "t' \<in> set ts" and ne: "t \<noteq> t'"
    show "?W t \<inter> ?W t' = {}"
    proof (rule ccontr)
      assume "?W t \<inter> ?W t' \<noteq> {}"
      then obtain a where a: "a \<in> ?W t" "a \<in> ?W t'" by auto
      have y: "snd t = snd t'"
        using rng[OF a(1)] rng[OF a(2)] sN by (intro row_unique[of a N]) simp_all
      have "(a - N * int (snd t) - int (fst t)) mod int bd = 0"
           "(a - N * int (snd t) - int (fst t')) mod int bd = 0"
        using a y by (simp_all add: lanes_of_def)
      then have "int bd dvd (a - N * int (snd t) - int (fst t))"
                "int bd dvd (a - N * int (snd t) - int (fst t'))"
        by (simp_all add: dvd_eq_mod_eq_0)
      then have "int bd dvd (a - N * int (snd t) - int (fst t)) - (a - N * int (snd t) - int (fst t'))"
        by (rule dvd_diff)
      then have dv: "int bd dvd int (fst t') - int (fst t)" by (simp add: algebra_simps)
      have b: "fst t < bd" "fst t' < bd"
        using t t' assms(6) by (metis block_threads_mem prod.collapse)+
      have "fst t = fst t'"
      proof (rule ccontr)
        assume n: "fst t \<noteq> fst t'"
        then have "\<bar>int (fst t') - int (fst t)\<bar> < int bd" "int (fst t') - int (fst t) \<noteq> 0"
          using b by auto
        then show False using dv by (meson zdvd_not_zless dvd_abs_iff zero_less_abs_iff)
      qed
      then show False using y ne by (simp add: prod_eq_iff)
    qed
  qed
  have ahead: "\<forall>t\<in>set ts. \<forall>t'\<in>set ts. \<forall>a\<in>?W t. a + s \<notin> ?W t'"
  proof (intro ballI notI)
    fix t t' a assume a: "a \<in> ?W t" and b: "a + s \<in> ?W t'"
    have x: "0 \<le> a - N * int (snd t)" "a - N * int (snd t) < s" using rng[OF a] by simp_all
    have y: "0 \<le> a + s - N * int (snd t')" "a + s - N * int (snd t') < s" using rng[OF b] by simp_all
    let ?d = "int (snd t') - int (snd t)"
    have d1: "N * ?d < 2 * s" and d0: "0 < N * ?d"
      using x y by (simp_all add: algebra_simps)
    have "N * ?d < N * 1" using d1 assms(4) by simp
    then have "?d < 1" using assms(2) by (simp only: mult_less_cancel_left_pos)
    moreover have "N * 0 < N * ?d" using d0 by simp
    then have "0 < ?d" using assms(2) by (simp only: mult_less_cancel_left_pos)
    ultimately show False by simp
  qed
  let ?F = "\<lambda>t (m :: int \<Rightarrow> 'a) a. if a \<in> ?W t then m a + m (a + s) else m a"
  have "run_interval ts [reduce_code N bd s] st =
        fold (\<lambda>t st. (?F t (fst st), snd st)) ts st"
    by (simp only: run_interval_single th)
  also have "\<dots> = (fold ?F ts (fst st), snd st)" by (rule fold_fst)
  also have "fold ?F ts (fst st) =
             (\<lambda>a. if \<exists>t\<in>set ts. a \<in> ?W t then fst st a + fst st (a + s) else fst st a)"
    by (rule fold_combine[where W = ?W, OF assms(5) disj ahead])
  finally show ?thesis unfolding cov .
qed

subsection \<open>The interval after the last barrier of a vector\<close>

lemma lanes_of_one: "lanes_of bd 1 (int tx) = (if tx = 0 then {0} else {})"
  by (auto simp: lanes_of_def)

lemma reduce_last:
  fixes N :: int and acc :: "'a::{zero,one,plus,times} mem"
  assumes "0 < bd"
  shows "reduce N bd 1 ty (int tx) acc =
         (if tx = 0 then acc(N * int ty := acc (N * int ty) + acc (N * int ty + 1)) else acc)"
  by (rule ext) (simp add: reduce_combine[OF assms] lanes_of_one)

lemma tail_thread:
  fixes N :: int and acc :: "'a::{zero,one,plus,times} mem"
  assumes "0 < bd" "0 < N"
  shows "fold (\<lambda>c. c t) [reduce_code N bd 1, write_code N prev, accumulate_code N bd A B vb ve]
              (acc, dC) =
         (accumulate N bd A B vb ve (snd t) (int (fst t)) acc,
          if fst t = 0
          then dC(prev + 256 * int (snd t) := acc (N * int (snd t)) + acc (N * int (snd t) + 1))
          else dC)"
proof -
  obtain tx ty where t: "t = (tx, ty)" by (cases t)
  have own: "0 \<in> lanes_of bd N (int 0)" using assms(2) by (simp add: lanes_of_def)
  have a: "accumulate N bd A B vb ve ty (int tx)
             (if tx = 0 then acc(N * int ty := x) else acc) =
           accumulate N bd A B vb ve ty (int tx) acc" for x
    using own by (intro ext) (auto simp: accumulate_overwrite[OF assms(1)])
  show ?thesis
    by (simp add: t reduce_code_def write_code_def accumulate_code_def write_result_def
                  reduce_last[OF assms(1)] a)
qed

lemma slot_row_zero:
  fixes N :: int
  assumes "0 < N" "N * int ty - N * int ty' \<in> lanes_of bd N (int tx')"
  shows "ty' = ty \<and> tx' = 0"
proof -
  have l: "int tx' \<le> N * int ty - N * int ty'"
    and u: "N * int ty - N * int ty' < N"
    using assms(2) by (simp_all add: lanes_of_def)
  have r: "0 \<le> N * int ty - N * int ty'" "N * int ty - N * int ty' < N"
    using l u by linarith+
  have y: "ty = ty'"
    using r assms(1) by (intro row_unique[of "N * int ty" N]) simp_all
  then show ?thesis using l by simp
qed

lemma slot_row_one:
  fixes N :: int
  assumes "1 < N" "N * int ty + 1 - N * int ty' \<in> lanes_of bd N (int tx')"
  shows "ty' = ty \<and> (tx' = 0 \<or> tx' = 1)"
proof -
  have l: "int tx' \<le> N * int ty + 1 - N * int ty'"
    and u: "N * int ty + 1 - N * int ty' < N"
    using assms(2) by (simp_all add: lanes_of_def)
  have r: "0 \<le> N * int ty + 1 - N * int ty'" "N * int ty + 1 - N * int ty' < N"
    using l u by linarith+
  have y: "ty = ty'"
    using r assms(1) by (intro row_unique[of "N * int ty + 1" N]) simp_all
  then show ?thesis using l by auto
qed

lemma interval_tail_fold:
  fixes N :: int and acc0 :: "'a::{zero,one,plus,times} mem"
  assumes "0 < bd" "1 < N" "distinct us"
  shows "fst (run_interval us
                [reduce_code N bd 1, write_code N prev, accumulate_code N bd A B vb ve]
                (acc0, dC0)) =
           (\<lambda>a. if \<exists>t\<in>set us. a - N * int (snd t) \<in> lanes_of bd N (int (fst t))
                 then dot_loop N A B ve (vb + a mod N) 0 else acc0 a)
         \<and> (\<forall>ty. (0, ty) \<in> set us \<longrightarrow>
               snd (run_interval us
                      [reduce_code N bd 1, write_code N prev, accumulate_code N bd A B vb ve]
                      (acc0, dC0)) (prev + 256 * int ty) =
               acc0 (N * int ty)
               + (if (1, ty) \<in> set (takeWhile (\<lambda>x. x \<noteq> (0, ty)) us)
                  then dot_loop N A B ve (vb + 1) 0 else acc0 (N * int ty + 1)))
         \<and> (\<forall>a. (\<forall>ty. (0, ty) \<in> set us \<longrightarrow> a \<noteq> prev + 256 * int ty) \<longrightarrow>
               snd (run_interval us
                      [reduce_code N bd 1, write_code N prev, accumulate_code N bd A B vb ve]
                      (acc0, dC0)) a = dC0 a)"
  using assms(3)
proof (induction us rule: rev_induct)
  case Nil
  then show ?case by (simp add: run_interval_def)
next
  case (snoc t us)
  let ?cs = "[reduce_code N bd 1, write_code N prev, accumulate_code N bd A B vb ve]"
  let ?st = "run_interval us ?cs (acc0, dC0)"
  let ?accF = "\<lambda>us a. if \<exists>t\<in>set us. a - N * int (snd t) \<in> lanes_of bd N (int (fst t))
                 then dot_loop N A B ve (vb + a mod N) 0 else acc0 a"
  let ?X = "\<lambda>us ty. acc0 (N * int ty)
               + (if (1, ty) \<in> set (takeWhile (\<lambda>x. x \<noteq> (0, ty)) us)
                  then dot_loop N A B ve (vb + 1) 0 else acc0 (N * int ty + 1))"
  have N0: "0 < N" using assms(2) by simp
  have d: "distinct us" and tn: "t \<notin> set us" using snoc.prems by simp_all
  have IH1: "fst ?st = ?accF us"
    and IH2: "\<And>ty. (0, ty) \<in> set us \<Longrightarrow> snd ?st (prev + 256 * int ty) = ?X us ty"
    and IH3: "\<And>a. (\<forall>ty. (0, ty) \<in> set us \<longrightarrow> a \<noteq> prev + 256 * int ty) \<Longrightarrow> snd ?st a = dC0 a"
    using snoc.IH[OF d] by blast+
  obtain tx ty where t: "t = (tx, ty)" by (cases t)
  have step: "run_interval (us @ [t]) ?cs (acc0, dC0) =
        (accumulate N bd A B vb ve ty (int tx) (fst ?st),
         if tx = 0
         then (snd ?st)(prev + 256 * int ty := fst ?st (N * int ty) + fst ?st (N * int ty + 1))
         else snd ?st)"
  proof -
    have "run_interval (us @ [t]) ?cs (acc0, dC0) = fold (\<lambda>c. c t) ?cs (fst ?st, snd ?st)"
      by (simp add: run_interval_def)
    then show ?thesis
      by (simp only: tail_thread[OF assms(1) N0] t fst_conv snd_conv)
  qed
  have c1: "fst (run_interval (us @ [t]) ?cs (acc0, dC0)) = ?accF (us @ [t])"
    unfolding step fst_conv IH1
    by (rule ext) (auto simp: accumulate_overwrite[OF assms(1)] t)
  have c2: "snd (run_interval (us @ [t]) ?cs (acc0, dC0)) (prev + 256 * int ty')
            = ?X (us @ [t]) ty'" if h: "(0, ty') \<in> set (us @ [t])" for ty'
  proof (cases "t = (0, ty')")
    case True
    then have tx0: "tx = 0" and ty: "ty = ty'" using t by simp_all
    have n0: "(0, ty') \<notin> set us" using tn True by simp
    have a0: "fst ?st (N * int ty') = acc0 (N * int ty')"
    proof -
      have "\<not> (\<exists>t'\<in>set us. N * int ty' - N * int (snd t') \<in> lanes_of bd N (int (fst t')))"
      proof
        assume "\<exists>t'\<in>set us. N * int ty' - N * int (snd t') \<in> lanes_of bd N (int (fst t'))"
        then obtain t' where t': "t' \<in> set us"
          and l: "N * int ty' - N * int (snd t') \<in> lanes_of bd N (int (fst t'))" by blast
        from slot_row_zero[OF N0 l] have "t' = (0, ty')" by (simp add: prod_eq_iff)
        then show False using t' n0 by simp
      qed
      then show ?thesis by (simp only: IH1 if_False)
    qed
    have m1: "(N * int ty' + 1) mod N = 1" using assms(2) by simp
    have a1: "fst ?st (N * int ty' + 1) =
              (if (1, ty') \<in> set us then dot_loop N A B ve (vb + 1) 0 else acc0 (N * int ty' + 1))"
    proof -
      have "(\<exists>t'\<in>set us. N * int ty' + 1 - N * int (snd t') \<in> lanes_of bd N (int (fst t')))
            \<longleftrightarrow> (1, ty') \<in> set us"
      proof
        assume "\<exists>t'\<in>set us. N * int ty' + 1 - N * int (snd t') \<in> lanes_of bd N (int (fst t'))"
        then obtain t' where t': "t' \<in> set us"
          and l: "N * int ty' + 1 - N * int (snd t') \<in> lanes_of bd N (int (fst t'))" by blast
        from slot_row_one[OF assms(2) l] have "t' = (0, ty') \<or> t' = (1, ty')"
          by (auto simp: prod_eq_iff)
        then show "(1, ty') \<in> set us" using t' n0 by auto
      next
        assume "(1, ty') \<in> set us"
        moreover have "N * int ty' + 1 - N * int (snd (1::nat, ty')) \<in> lanes_of bd N (int (fst (1::nat, ty')))"
          using assms(2) by (simp add: lanes_of_def)
        ultimately show "\<exists>t'\<in>set us. N * int ty' + 1 - N * int (snd t') \<in> lanes_of bd N (int (fst t'))"
          by blast
      qed
      then show ?thesis by (simp only: IH1 m1)
    qed
    have "takeWhile (\<lambda>x. x \<noteq> (0, ty')) (us @ [t]) = us @ takeWhile (\<lambda>x. x \<noteq> (0, ty')) [t]"
      by (rule takeWhile_append2) (use n0 in auto)
    then have tw: "takeWhile (\<lambda>x. x \<noteq> (0, ty')) (us @ [t]) = us"
      using True by simp
    show ?thesis
      unfolding step snd_conv tw
      by (simp only: tx0 ty if_True fun_upd_same a0 a1 simp_thms)
  next
    case False
    then have in_us: "(0, ty') \<in> set us" using h by simp
    have other: "tx = 0 \<Longrightarrow> prev + 256 * int ty \<noteq> prev + 256 * int ty'"
      using False t by auto
    have tw: "takeWhile (\<lambda>x. x \<noteq> (0, ty')) (us @ [t]) = takeWhile (\<lambda>x. x \<noteq> (0, ty')) us"
      using in_us by simp
    have "snd (run_interval (us @ [t]) ?cs (acc0, dC0)) (prev + 256 * int ty')
          = snd ?st (prev + 256 * int ty')"
      unfolding step snd_conv using other by auto
    then show ?thesis
      by (simp only: tw IH2[OF in_us])
  qed
  have c3: "snd (run_interval (us @ [t]) ?cs (acc0, dC0)) a = dC0 a"
    if h: "\<forall>ty. (0, ty) \<in> set (us @ [t]) \<longrightarrow> a \<noteq> prev + 256 * int ty" for a
  proof -
    have "snd (run_interval (us @ [t]) ?cs (acc0, dC0)) a = snd ?st a"
      unfolding step snd_conv using h t by auto
    also have "\<dots> = dC0 a" using h by (intro IH3) simp
    finally show ?thesis .
  qed
  show ?case using c1 c2 c3 by blast
qed

lemma interval_tail:
  fixes N :: int and acc0 :: "'a::{zero,one,plus,times} mem"
  assumes "0 < bd" "1 < N" "distinct ts" "set ts = set (block_threads bd bdy)"
  shows "fst (run_interval ts
                [reduce_code N bd 1, write_code N prev, accumulate_code N bd A B vb ve]
                (acc0, dC0)) =
           (\<lambda>a. if 0 \<le> a \<and> a < N * int bdy then dot_loop N A B ve (vb + a mod N) 0 else acc0 a)"
    and "ty < bdy \<Longrightarrow>
           snd (run_interval ts
                  [reduce_code N bd 1, write_code N prev, accumulate_code N bd A B vb ve]
                  (acc0, dC0)) (prev + 256 * int ty) =
           acc0 (N * int ty)
           + (if (1, ty) \<in> set (takeWhile (\<lambda>x. x \<noteq> (0, ty)) ts)
              then dot_loop N A B ve (vb + 1) 0 else acc0 (N * int ty + 1))"
    and "(\<forall>ty<bdy. a \<noteq> prev + 256 * int ty) \<Longrightarrow>
           snd (run_interval ts
                  [reduce_code N bd 1, write_code N prev, accumulate_code N bd A B vb ve]
                  (acc0, dC0)) a = dC0 a"
proof -
  note f = interval_tail_fold[OF assms(1,2,3), of prev A B vb ve acc0 dC0]
  have N0: "0 < N" using assms(2) by simp
  have cov: "(\<exists>t\<in>set ts. a - N * int (snd t) \<in> lanes_of bd N (int (fst t)))
             \<longleftrightarrow> 0 \<le> a \<and> a < N * int bdy" for a
    using threads_cover[OF assms(1) N0 _ _ assms(4), of N a] N0 by simp
  show "fst (run_interval ts
                [reduce_code N bd 1, write_code N prev, accumulate_code N bd A B vb ve]
                (acc0, dC0)) =
           (\<lambda>a. if 0 \<le> a \<and> a < N * int bdy then dot_loop N A B ve (vb + a mod N) 0 else acc0 a)"
    using f by (simp only: cov)
  have mem: "(0, ty) \<in> set ts \<longleftrightarrow> ty < bdy" for ty
    using assms(1) by (simp add: assms(4) block_threads_mem)
  show "snd (run_interval ts
                  [reduce_code N bd 1, write_code N prev, accumulate_code N bd A B vb ve]
                  (acc0, dC0)) (prev + 256 * int ty) =
           acc0 (N * int ty)
           + (if (1, ty) \<in> set (takeWhile (\<lambda>x. x \<noteq> (0, ty)) ts)
              then dot_loop N A B ve (vb + 1) 0 else acc0 (N * int ty + 1))" if "ty < bdy"
    using f that mem by blast
  show "snd (run_interval ts
                  [reduce_code N bd 1, write_code N prev, accumulate_code N bd A B vb ve]
                  (acc0, dC0)) a = dC0 a" if "\<forall>ty<bdy. a \<noteq> prev + 256 * int ty"
    using f that mem by blast
qed

lemma last_thread:
  fixes N :: int and acc :: "'a::{zero,one,plus,times} mem"
  assumes "0 < bd"
  shows "fold (\<lambda>c. c t) [reduce_code N bd 1, write_code N prev, sentinel_code b] (acc, dC) =
         (if fst t = 0
          then acc(N * int (snd t) := acc (N * int (snd t)) + acc (N * int (snd t) + 1))
          else acc,
          write_sentinel b t
            (if fst t = 0
             then dC(prev + 256 * int (snd t) := acc (N * int (snd t)) + acc (N * int (snd t) + 1))
             else dC))"
proof -
  obtain tx ty where t: "t = (tx, ty)" by (cases t)
  show ?thesis
    by (simp add: t reduce_code_def write_code_def sentinel_code_def write_result_def
                  reduce_last[OF assms(1)])
qed

lemma row_start_inj:
  fixes N :: int
  assumes "0 < N" "N * int ty = N * int ty'"
  shows "ty = ty'"
  using assms by simp

lemma row_start_next:
  fixes N :: int
  assumes "1 < N"
  shows "N * int ty + 1 \<noteq> N * int ty'"
proof
  assume "N * int ty + 1 = N * int ty'"
  then have "(N * int ty + 1) mod N = (N * int ty') mod N" by simp
  then show False using assms by simp
qed

lemma interval_last_fold:
  fixes N :: int and acc0 :: "'a::{zero,one,plus,times} mem"
  assumes "0 < bd" "1 < N" "distinct us"
  shows "fst (run_interval us [reduce_code N bd 1, write_code N prev, sentinel_code b]
                (acc0, dC0)) =
           (\<lambda>a. if \<exists>ty. (0, ty) \<in> set us \<and> a = N * int ty
                 then acc0 a + acc0 (a + 1) else acc0 a)
         \<and> (\<forall>ty. (0, ty) \<in> set us \<and> (prev + 256 * int ty \<noteq> 0 \<or> b \<noteq> 0) \<longrightarrow>
               snd (run_interval us [reduce_code N bd 1, write_code N prev, sentinel_code b]
                      (acc0, dC0)) (prev + 256 * int ty) =
               acc0 (N * int ty) + acc0 (N * int ty + 1))
         \<and> (\<forall>a. (a \<noteq> 0 \<or> b \<noteq> 0) \<and> (\<forall>ty. (0, ty) \<in> set us \<longrightarrow> a \<noteq> prev + 256 * int ty) \<longrightarrow>
               snd (run_interval us [reduce_code N bd 1, write_code N prev, sentinel_code b]
                      (acc0, dC0)) a = dC0 a)"
  using assms(3)
proof (induction us rule: rev_induct)
  case Nil
  then show ?case by (simp add: run_interval_def)
next
  case (snoc t us)
  let ?cs = "[reduce_code N bd 1, write_code N prev, sentinel_code b]"
  let ?st = "run_interval us ?cs (acc0, dC0)"
  let ?accF = "\<lambda>us a. if \<exists>ty. (0, ty) \<in> set us \<and> a = N * int ty
                 then acc0 a + acc0 (a + 1) else acc0 a"
  have N0: "0 < N" using assms(2) by simp
  have d: "distinct us" and tn: "t \<notin> set us" using snoc.prems by simp_all
  have IH1: "fst ?st = ?accF us"
    and IH2: "\<And>ty. (0, ty) \<in> set us \<Longrightarrow> prev + 256 * int ty \<noteq> 0 \<or> b \<noteq> 0 \<Longrightarrow>
                 snd ?st (prev + 256 * int ty) = acc0 (N * int ty) + acc0 (N * int ty + 1)"
    and IH3: "\<And>a. a \<noteq> 0 \<or> b \<noteq> 0 \<Longrightarrow> (\<forall>ty. (0, ty) \<in> set us \<longrightarrow> a \<noteq> prev + 256 * int ty)
                 \<Longrightarrow> snd ?st a = dC0 a"
    using snoc.IH[OF d] by blast+
  obtain tx ty where t: "t = (tx, ty)" by (cases t)
  let ?x = "fst ?st (N * int ty) + fst ?st (N * int ty + 1)"
  have step: "run_interval (us @ [t]) ?cs (acc0, dC0) =
        (if tx = 0 then (fst ?st)(N * int ty := ?x) else fst ?st,
         write_sentinel b t (if tx = 0 then (snd ?st)(prev + 256 * int ty := ?x) else snd ?st))"
  proof -
    have "run_interval (us @ [t]) ?cs (acc0, dC0) = fold (\<lambda>c. c t) ?cs (fst ?st, snd ?st)"
      by (simp add: run_interval_def)
    then show ?thesis
      by (simp only: last_thread[OF assms(1)] t fst_conv snd_conv)
  qed
  have x: "?x = acc0 (N * int ty) + acc0 (N * int ty + 1)" if "tx = 0"
  proof -
    have "(0, ty) \<notin> set us" using tn t that by simp
    then have "\<not> (\<exists>ty'. (0, ty') \<in> set us \<and> N * int ty = N * int ty')"
      using row_start_inj[OF N0] by blast
    moreover have "\<not> (\<exists>ty'. (0, ty') \<in> set us \<and> N * int ty + 1 = N * int ty')"
      using row_start_next[OF assms(2)] by blast
    ultimately show ?thesis by (simp only: IH1 if_False)
  qed
  have keep: "write_sentinel b t m a = m a" if "a \<noteq> 0 \<or> b \<noteq> 0" for m :: "'a mem" and a
    using that by (auto simp: write_sentinel_def sentinel_thread_def)
  have c1: "fst (run_interval (us @ [t]) ?cs (acc0, dC0)) = ?accF (us @ [t])"
  proof (cases "tx = 0")
    case True
    have "((fst ?st)(N * int ty := ?x)) a = ?accF (us @ [t]) a" for a
    proof (cases "a = N * int ty")
      case eq: True
      have "\<exists>ty'. (0, ty') \<in> set (us @ [t]) \<and> a = N * int ty'"
        using t True eq by auto
      then have "?accF (us @ [t]) a = acc0 a + acc0 (a + 1)" by (simp only: if_True)
      then show ?thesis using x[OF True] eq by simp
    next
      case ne: False
      have "(\<exists>ty'. (0, ty') \<in> set (us @ [t]) \<and> a = N * int ty')
            \<longleftrightarrow> (\<exists>ty'. (0, ty') \<in> set us \<and> a = N * int ty')"
        using t ne by auto
      then have "?accF (us @ [t]) a = ?accF us a" by (simp only:)
      then show ?thesis using ne by (simp add: IH1)
    qed
    then have "(fst ?st)(N * int ty := ?x) = ?accF (us @ [t])" by (intro ext)
    then show ?thesis unfolding step fst_conv using True by simp
  next
    case False
    then have "?accF us = ?accF (us @ [t])" using t by (intro ext) auto
    then show ?thesis unfolding step fst_conv IH1 using False by simp
  qed
  have c2: "snd (run_interval (us @ [t]) ?cs (acc0, dC0)) (prev + 256 * int ty')
            = acc0 (N * int ty') + acc0 (N * int ty' + 1)"
    if h: "(0, ty') \<in> set (us @ [t])" "prev + 256 * int ty' \<noteq> 0 \<or> b \<noteq> 0" for ty'
  proof (cases "t = (0, ty')")
    case True
    then have tx0: "tx = 0" and ty: "ty = ty'" using t by simp_all
    show ?thesis
      unfolding step snd_conv keep[OF h(2)] using x[OF tx0] tx0 ty by simp
  next
    case False
    then have in_us: "(0, ty') \<in> set us" using h by simp
    have other: "tx = 0 \<Longrightarrow> prev + 256 * int ty \<noteq> prev + 256 * int ty'"
      using False t by auto
    have "snd (run_interval (us @ [t]) ?cs (acc0, dC0)) (prev + 256 * int ty')
          = snd ?st (prev + 256 * int ty')"
      unfolding step snd_conv keep[OF h(2)] using other by auto
    then show ?thesis
      by (simp only: IH2[OF in_us h(2)])
  qed
  have c3: "snd (run_interval (us @ [t]) ?cs (acc0, dC0)) a = dC0 a"
    if h: "a \<noteq> 0 \<or> b \<noteq> 0" "\<forall>ty. (0, ty) \<in> set (us @ [t]) \<longrightarrow> a \<noteq> prev + 256 * int ty" for a
  proof -
    have "snd (run_interval (us @ [t]) ?cs (acc0, dC0)) a = snd ?st a"
      unfolding step snd_conv keep[OF h(1)] using h(2) t by auto
    also have "\<dots> = dC0 a" using h by (intro IH3) simp_all
    finally show ?thesis .
  qed
  show ?case using c1 c2 c3 by blast
qed

lemma interval_last:
  fixes N :: int and acc0 :: "'a::{zero,one,plus,times} mem"
  assumes "0 < bd" "1 < N" "distinct ts" "set ts = set (block_threads bd bdy)"
    and "a \<noteq> 0 \<or> b \<noteq> 0"
  shows "ty < bdy \<Longrightarrow> a = prev + 256 * int ty \<Longrightarrow>
           snd (run_interval ts [reduce_code N bd 1, write_code N prev, sentinel_code b]
                  (acc0, dC0)) a =
           acc0 (N * int ty) + acc0 (N * int ty + 1)"
    and "(\<forall>ty<bdy. a \<noteq> prev + 256 * int ty) \<Longrightarrow>
           snd (run_interval ts [reduce_code N bd 1, write_code N prev, sentinel_code b]
                  (acc0, dC0)) a = dC0 a"
proof -
  note f = interval_last_fold[OF assms(1,2,3), of prev b acc0 dC0]
  have mem: "(0, ty) \<in> set ts \<longleftrightarrow> ty < bdy" for ty
    using assms(1) by (simp add: assms(4) block_threads_mem)
  show "snd (run_interval ts [reduce_code N bd 1, write_code N prev, sentinel_code b]
                  (acc0, dC0)) a =
           acc0 (N * int ty) + acc0 (N * int ty + 1)" if "ty < bdy" "a = prev + 256 * int ty"
    using f that mem assms(5) by blast
  show "snd (run_interval ts [reduce_code N bd 1, write_code N prev, sentinel_code b]
                  (acc0, dC0)) a = dC0 a" if "\<forall>ty<bdy. a \<noteq> prev + 256 * int ty"
    using f that mem assms(5) by blast
qed

subsection \<open>Slots that a body does not write\<close>

lemma run_interval_frame:
  assumes "\<forall>c\<in>set cs. \<forall>t\<in>set ts. \<forall>st. snd (c t st) a = snd st a"
  shows "snd (run_interval ts cs st) a = snd st a"
proof -
  have one: "snd (fold (\<lambda>c. c t) cs' st) a = snd st a"
    if "t \<in> set ts" "set cs' \<subseteq> set cs" for t cs' st
    using that(2)
  proof (induction cs' arbitrary: st)
    case Nil
    then show ?case by simp
  next
    case (Cons c cs')
    have "snd (fold (\<lambda>c. c t) cs' (c t st)) a = snd (c t st) a"
      by (rule Cons.IH) (use Cons.prems in simp)
    also have "\<dots> = snd st a"
    proof -
      have "c \<in> set cs" using Cons.prems by simp
      then show ?thesis using assms that(1) by blast
    qed
    finally show ?case by simp
  qed
  have "snd (fold (\<lambda>t. fold (\<lambda>c. c t) cs) ts' st) a = snd st a" if "set ts' \<subseteq> set ts" for ts'
    using that
  proof (induction ts' arbitrary: st)
    case Nil
    then show ?case by simp
  next
    case (Cons t ts')
    have "snd (fold (\<lambda>t. fold (\<lambda>c. c t) cs) ts' (fold (\<lambda>c. c t) cs st)) a
          = snd (fold (\<lambda>c. c t) cs st) a"
      by (rule Cons.IH) (use Cons.prems in simp)
    also have "\<dots> = snd st a" by (rule one) (use Cons.prems in simp_all)
    finally show ?case by simp
  qed
  then show ?thesis by (simp add: run_interval_def)
qed

lemma run_body_frame:
  assumes "\<forall>j. set (sched j) \<subseteq> T"
    and "\<forall>c\<in>set cs. \<forall>t\<in>T. \<forall>st. snd (c t st) a = snd st a"
    and "\<forall>c. Code c \<in> set p \<longrightarrow> (\<forall>t\<in>T. \<forall>st. snd (c t st) a = snd st a)"
  shows "snd (run_body sched j cs p st) a = snd st a"
  using assms(2,3)
proof (induction p arbitrary: j cs st)
  case Nil
  have "\<forall>c\<in>set cs. \<forall>t\<in>set (sched j). \<forall>st. snd (c t st) a = snd st a"
    using Nil.prems(1) assms(1) by blast
  then show ?case by (simp add: run_interval_frame)
next
  case (Cons s p)
  show ?case
  proof (cases s)
    case Sync
    have i: "\<forall>c\<in>set cs. \<forall>t\<in>set (sched j). \<forall>st. snd (c t st) a = snd st a"
      using Cons.prems(1) assms(1) by blast
    have "snd (run_body sched (Suc j) [] p (run_interval (sched j) cs st)) a
          = snd (run_interval (sched j) cs st) a"
      by (rule Cons.IH) (use Cons.prems in simp_all)
    also have "\<dots> = snd st a" using i by (rule run_interval_frame)
    finally show ?thesis by (simp add: Sync)
  next
    case (Code c)
    have "snd (run_body sched j (cs @ [c]) p st) a = snd st a"
      by (rule Cons.IH) (use Cons.prems Code in auto)
    then show ?thesis by (simp add: Code)
  qed
qed

lemma rounds_simps:
  "0 < s \<Longrightarrow> rounds N bd s = Sync # Code (reduce_code N bd s) # rounds N bd (s div 2)"
  "\<not> 0 < s \<Longrightarrow> rounds N bd s = []"
  by (subst rounds.simps, simp)+

lemma vectors_simps:
  "vec < vN \<Longrightarrow> 0 < g \<Longrightarrow>
     vectors N g bd A B vN eN vec =
       Code (accumulate_code N bd A B (IMUL eN vec) (IMUL eN vec + eN))
       # rounds N bd (N div 2)
       @ Code (write_code N vec) # vectors N g bd A B vN eN (vec + int g)"
  "\<not> vec < vN \<Longrightarrow> vectors N g bd A B vN eN vec = []"
  by (subst vectors.simps, simp add: Let_def)+

lemma rounds_codes:
  "Code c \<in> set (rounds N bd s) \<Longrightarrow> \<exists>s'. c = reduce_code N bd s'"
proof (induction N bd s rule: rounds.induct)
  case (1 N bd s)
  show ?case
  proof (cases "0 < s")
    case True
    then show ?thesis using 1 by (auto simp: rounds_simps(1))
  next
    case False
    then show ?thesis using 1 by (simp add: rounds_simps(2))
  qed
qed

lemma vectors_codes:
  assumes "Code c \<in> set (vectors N g bd A B vN eN vec)"
  shows "(\<exists>vb ve. c = accumulate_code N bd A B vb ve) \<or> (\<exists>s. c = reduce_code N bd s)
         \<or> (\<exists>vec'\<in>lanes_of g vN vec. c = write_code N vec')"
  using assms
proof (induction N g bd A B vN eN vec rule: vectors.induct)
  case (1 N g bd A B vN eN vec)
  show ?case
  proof (cases "vec < vN \<and> 0 < g")
    case True
    then have v: "vec < vN" and g: "0 < g" by simp_all
    have st: "lanes_of g vN vec = insert vec (lanes_of g vN (vec + int g))"
      using g v by (rule lanes_of_step)
    from "1.prems" consider
        "c = accumulate_code N bd A B (IMUL eN vec) (IMUL eN vec + eN)"
      | "Code c \<in> set (rounds N bd (N div 2))"
      | "c = write_code N vec"
      | "Code c \<in> set (vectors N g bd A B vN eN (vec + int g))"
      by (auto simp: vectors_simps(1)[OF v g])
    then show ?thesis
    proof cases
      case 1
      then show ?thesis by blast
    next
      case 2
      then show ?thesis using rounds_codes by blast
    next
      case 3
      then show ?thesis using st by blast
    next
      case 4
      have "(\<exists>vb ve. c = accumulate_code N bd A B vb ve) \<or> (\<exists>s. c = reduce_code N bd s)
         \<or> (\<exists>vec'\<in>lanes_of g vN (vec + int g). c = write_code N vec')"
        by (rule "1.IH"[OF True 4])
      then show ?thesis using st by blast
    qed
  next
    case False
    have "vectors N g bd A B vN eN vec = []"
      by (subst vectors.simps) (simp only: False if_False)
    then show ?thesis using "1.prems" by simp
  qed
qed

lemma code_frames:
  "snd (accumulate_code N bd A B vb ve t st) = snd st"
  "snd (reduce_code N bd s t st) = snd st"
  "a \<noteq> vec + 256 * int (snd t) \<Longrightarrow> snd (write_code N vec t st) a = snd st a"
  "a \<noteq> 0 \<or> b \<noteq> 0 \<Longrightarrow> snd (sentinel_code b t st) a = snd st a"
  by (auto simp: accumulate_code_def reduce_code_def write_code_def write_result_def
                 sentinel_code_def write_sentinel_def sentinel_thread_def split: prod.splits)

lemma body_frame:
  fixes N :: int and st :: "'a::{zero,one,plus,times} mem \<times> 'a mem"
  assumes "\<forall>j. set (sched j) = set (block_threads bd bdy)"
    and "a \<noteq> 0 \<or> b \<noteq> 0"
    and "\<forall>vec'\<in>lanes_of g vN vec. \<forall>ty<bdy. a \<noteq> vec' + 256 * int ty"
    and "cs = [] \<or> (\<exists>prev. cs = [reduce_code N bd 1, write_code N prev]
                        \<and> (\<forall>ty<bdy. a \<noteq> prev + 256 * int ty))"
  shows "snd (run_body sched j cs (vectors N g bd A B vN eN vec @ [Code (sentinel_code b)]) st) a
         = snd st a"
proof (rule run_body_frame[where T = "set (block_threads bd bdy)"])
  show "\<forall>j. set (sched j) \<subseteq> set (block_threads bd bdy)" using assms(1) by simp
  have wr: "snd (write_code N vec' t st) a = snd st a"
    if "\<forall>ty<bdy. a \<noteq> vec' + 256 * int ty" "t \<in> set (block_threads bd bdy)"
    for vec' t and st :: "'a mem \<times> 'a mem"
  proof -
    have "snd t < bdy" using that(2) by (metis block_threads_mem prod.collapse)
    then show ?thesis using that(1) by (intro code_frames(3)) simp
  qed
  show "\<forall>c\<in>set cs. \<forall>t\<in>set (block_threads bd bdy). \<forall>st. snd (c t st) a = snd st a"
    using assms(4) wr by (auto simp: code_frames(2))
  show "\<forall>c. Code c \<in> set (vectors N g bd A B vN eN vec @ [Code (sentinel_code b)]) \<longrightarrow>
          (\<forall>t\<in>set (block_threads bd bdy). \<forall>st. snd (c t st) a = snd st a)"
  proof (intro allI impI ballI)
    fix c t and st :: "'a mem \<times> 'a mem"
    assume c: "Code c \<in> set (vectors N g bd A B vN eN vec @ [Code (sentinel_code b)])"
      and t: "t \<in> set (block_threads bd bdy)"
    from c consider "c = sentinel_code b" | "Code c \<in> set (vectors N g bd A B vN eN vec)"
      by auto
    then show "snd (c t st) a = snd st a"
    proof cases
      case 1
      then show ?thesis using assms(2) by (simp add: code_frames(4))
    next
      case 2
      from vectors_codes[OF 2] show ?thesis
      proof (elim disjE exE bexE)
        fix vb ve assume "c = accumulate_code N bd A B vb ve"
        then show ?thesis by (simp add: code_frames(1))
      next
        fix s assume "c = reduce_code N bd s"
        then show ?thesis by (simp add: code_frames(2))
      next
        fix vec' assume "vec' \<in> lanes_of g vN vec" "c = write_code N vec'"
        then show ?thesis using wr[OF _ t] assms(3) by simp
      qed
    qed
  qed
qed

subsection \<open>The reduction rounds\<close>

lemma tree_sum_cong:
  "(\<And>i. i < 2 ^ k \<Longrightarrow> f i = g i) \<Longrightarrow> tree_sum k f = tree_sum k g"
proof (induction k arbitrary: f g)
  case 0
  then show ?case by simp
next
  case (Suc k)
  have "tree_sum k (\<lambda>i. f i + f (i + 2 ^ k)) = tree_sum k (\<lambda>i. g i + g (i + 2 ^ k))"
    by (rule Suc.IH) (simp add: Suc.prems)
  then show ?case by simp
qed

lemma row_slot:
  fixes N :: int
  assumes "0 < N" "ty < bdy" "int i < N"
  shows "0 \<le> int i + N * int ty" "int i + N * int ty < N * int bdy"
        "(int i + N * int ty) mod N = int i"
proof -
  show "0 \<le> int i + N * int ty" using assms by simp
  have "int ty + 1 \<le> int bdy" using assms by simp
  then have "N * (int ty + 1) \<le> N * int bdy" using assms(1) by (simp add: mult_left_mono)
  then show "int i + N * int ty < N * int bdy" using assms by (simp add: algebra_simps)
  show "(int i + N * int ty) mod N = int i" using assms by simp
qed

subsection \<open>The value computed for one vector\<close>

lemma mod_between:
  fixes M :: nat
  assumes "p < i" "i < p + M"
  shows "i mod M \<noteq> p mod M"
proof
  assume "i mod M = p mod M"
  then have "M dvd i - p" using assms(1) by (metis mod_eq_dvd_iff_nat less_imp_le)
  moreover have "0 < i - p" "i - p < M" using assms by simp_all
  ultimately show False by (meson nat_dvd_not_less)
qed

lemma filter_upt_skip:
  fixes M :: nat
  assumes "p mod M = lane" "0 < M"
  shows "filter (\<lambda>i. i mod M = lane) [Suc p..<n] = filter (\<lambda>i. i mod M = lane) [p + M..<n]"
proof (cases "p + M \<le> n")
  case True
  have "Suc p \<le> p + M" using assms(2) by simp
  then have "[Suc p..<n] = [Suc p..<p + M] @ [p + M..<n]"
    using True by (metis le_Suc_ex upt_add_eq_append)
  moreover have "filter (\<lambda>i. i mod M = lane) [Suc p..<p + M] = []"
    using mod_between[of p _ M] assms by (auto simp: filter_empty_conv)
  ultimately show ?thesis by simp
next
  case False
  then have "filter (\<lambda>i. i mod M = lane) [Suc p..<n] = []"
    using mod_between[of p _ M] assms by (auto simp: filter_empty_conv)
  then show ?thesis using False by simp
qed

lemma dot_loop_filter:
  fixes N :: int
  assumes "0 < N" "p mod nat N = lane"
  shows "dot_loop N A B (base + int n) (base + int p) s =
         foldl (\<lambda>s i. s + A (base + int i) * B (base + int i)) s
               (filter (\<lambda>i. i mod nat N = lane) [p..<n])"
  using assms(2)
proof (induction "n - p" arbitrary: p s rule: less_induct)
  case less
  show ?case
  proof (cases "p < n")
    case False
    then show ?thesis by (subst dot_loop.simps) simp
  next
    case True
    have pN: "base + int p + N = base + int (p + nat N)" using assms(1) by simp
    have lane': "(p + nat N) mod nat N = lane" using less.prems by simp
    have sm: "n - (p + nat N) < n - p" using True assms(1) by simp
    have "dot_loop N A B (base + int n) (base + int p) s =
          dot_loop N A B (base + int n) (base + int (p + nat N))
             (s + A (base + int p) * B (base + int p))"
      by (subst dot_loop.simps) (simp only: pN, use True assms(1) in simp)
    also have "\<dots> = foldl (\<lambda>s i. s + A (base + int i) * B (base + int i))
                       (s + A (base + int p) * B (base + int p))
                       (filter (\<lambda>i. i mod nat N = lane) [p + nat N..<n])"
      by (rule less.hyps[OF sm lane'])
    also have "\<dots> = foldl (\<lambda>s i. s + A (base + int i) * B (base + int i)) s
                       (filter (\<lambda>i. i mod nat N = lane) [p..<n])"
      using True less.prems filter_upt_skip[OF less.prems, of n] assms(1)
      by (simp add: upt_rec[of p n])
    finally show ?thesis .
  qed
qed

lemma dot_loop_partial:
  fixes N :: int
  assumes "0 < N" "lane < nat N"
  shows "dot_loop N A B (vb + eN) (vb + int lane) 0 = partial_sum (nat N) (nat eN) A B vb lane"
proof (cases "0 \<le> eN")
  case True
  have lm: "lane mod nat N = lane" using assms(2) by simp
  have low: "filter (\<lambda>i. i mod nat N = lane) [0..<k] = []" if "k \<le> lane" for k
    using that assms(2) by (auto simp: filter_empty_conv)
  have "filter (\<lambda>i. i mod nat N = lane) [0..<nat eN] = filter (\<lambda>i. i mod nat N = lane) [lane..<nat eN]"
  proof (cases "lane \<le> nat eN")
    case True
    then have "[0..<nat eN] = [0..<lane] @ [lane..<nat eN]"
      by (metis le_Suc_ex upt_add_eq_append zero_le)
    then show ?thesis using low[of lane] by simp
  next
    case False
    then show ?thesis using low[of "nat eN"] by simp
  qed
  then show ?thesis
    using dot_loop_filter[OF assms(1) lm, of A B vb "nat eN" 0] True
    by (simp add: partial_sum_def)
next
  case False
  then have "dot_loop N A B (vb + eN) (vb + int lane) 0 = 0"
    by (subst dot_loop.simps) simp
  then show ?thesis using False by (simp add: partial_sum_def)
qed

text \<open>
  The loop reads \<^verbatim>\<open>d_A\<close> and \<^verbatim>\<open>d_B\<close> at positions from \<open>pos\<close> up to \<open>vectorEnd - 1\<close>
  only.
\<close>

lemma dot_loop_reads:
  fixes A :: "'a::{zero,one,plus,times} mem"
  assumes "\<forall>p. pos \<le> p \<and> p < vectorEnd \<longrightarrow> A p = A' p \<and> B p = B' p"
  shows "dot_loop N A B vectorEnd pos s = dot_loop N A' B' vectorEnd pos s"
  using assms
proof (induction N A B vectorEnd pos s rule: dot_loop.induct)
  case (1 N A B ve pos s)
  show ?case
  proof (cases "pos < ve \<and> 0 < N")
    case True
    have here: "A pos = A' pos" "B pos = B' pos" using "1.prems" True by simp_all
    have l: "dot_loop N A B ve pos s = dot_loop N A B ve (pos + N) (s + A pos * B pos)"
      by (subst dot_loop.simps) (simp add: True)
    have r: "dot_loop N A' B' ve pos s = dot_loop N A' B' ve (pos + N) (s + A' pos * B' pos)"
      by (subst dot_loop.simps) (simp add: True)
    have "dot_loop N A B ve (pos + N) (s + A pos * B pos)
          = dot_loop N A' B' ve (pos + N) (s + A pos * B pos)"
      by (rule "1.IH"[OF True]) (use "1.prems" True in simp)
    then show ?thesis by (simp only: l r here)
  next
    case False
    have "dot_loop N A B ve pos s = s" "dot_loop N A' B' ve pos s = s"
      by (subst dot_loop.simps, simp only: False if_False)+
    then show ?thesis by simp
  qed
qed

subsection \<open>The statements of one vector\<close>

lemma tree_sum_last:
  "tree_sum (Suc m) f = tree_sum m (\<lambda>l. f (2 * l)) + tree_sum m (\<lambda>l. f (2 * l + 1))"
proof (induction m arbitrary: f)
  case 0
  show ?case by simp
next
  case (Suc m)
  have "tree_sum (Suc (Suc m)) f = tree_sum (Suc m) (\<lambda>i. f i + f (i + 2 ^ Suc m))"
    by (simp only: tree_sum.simps(2)[of "Suc m"])
  also have "\<dots> = tree_sum m (\<lambda>l. f (2 * l) + f (2 * l + 2 ^ Suc m))
                 + tree_sum m (\<lambda>l. f (2 * l + 1) + f (2 * l + 1 + 2 ^ Suc m))"
    by (rule Suc.IH)
  also have "tree_sum m (\<lambda>l. f (2 * l) + f (2 * l + 2 ^ Suc m))
             = tree_sum (Suc m) (\<lambda>l. f (2 * l))"
    by (simp add: algebra_simps)
  also have "tree_sum m (\<lambda>l. f (2 * l + 1) + f (2 * l + 1 + 2 ^ Suc m))
             = tree_sum (Suc m) (\<lambda>l. f (2 * l + 1))"
    by (simp add: algebra_simps)
  finally show ?case .
qed

text \<open>
  The rounds with the strides \<open>2 ^ m, ..., 2, 1\<close>: all but the last are intervals of
  their own; the round of stride \<open>1\<close> is left for the next interval.  After the round of
  stride \<open>2\<close> the slots \<open>0\<close> and \<open>1\<close> of each row hold the tree sums over the even and over
  the odd lanes.
\<close>

lemma run_rounds:
  fixes N :: int and st :: "'a::{zero,one,plus,times} mem \<times> 'a mem"
  assumes "0 < bd" "0 < N"
    and "\<forall>j. distinct (sched j) \<and> set (sched j) = set (block_threads bd bdy)"
    and "2 * 2 ^ m \<le> N"
  shows "\<exists>acc2. run_body sched j cs (rounds N bd (2 ^ m) @ q) st =
                  run_body sched (j + Suc m) [reduce_code N bd 1] q
                     (acc2, snd (run_interval (sched j) cs st))
               \<and> (\<forall>ty<bdy. \<forall>i<2. acc2 (int i + N * int ty) =
                     tree_sum m (\<lambda>l. fst (run_interval (sched j) cs st)
                                        (int (i + 2 * l) + N * int ty)))"
  using assms(4)
proof (induction m arbitrary: j cs st)
  case 0
  let ?st1 = "run_interval (sched j) cs st"
  have r: "rounds N bd 1 = [Sync, Code (reduce_code N bd 1)]"
    by (simp add: rounds_simps)
  have "run_body sched j cs (rounds N bd (2 ^ 0) @ q) st =
        run_body sched (j + Suc 0) [reduce_code N bd 1] q (fst ?st1, snd ?st1)"
    by (simp add: r)
  then show ?case by (intro exI[of _ "fst ?st1"]) simp
next
  case (Suc m)
  let ?s = "(2::int) ^ Suc m"
  let ?st1 = "run_interval (sched j) cs st"
  let ?st2 = "run_interval (sched (Suc j)) [reduce_code N bd ?s] ?st1"
  have s0: "0 < ?s" by simp
  have half: "?s div 2 = 2 ^ m" by simp
  have r: "rounds N bd ?s = Sync # Code (reduce_code N bd ?s) # rounds N bd (2 ^ m)"
    using rounds_simps(1)[OF s0, of N bd] by (simp only: half)
  have sm: "2 * 2 ^ m \<le> N"
  proof -
    have q: "(0::int) < 2 ^ m" by (rule zero_less_power) simp
    have "2 * (2 * 2 ^ m) \<le> N" using Suc.prems by (simp only: power_Suc)
    then show ?thesis using q by linarith
  qed
  have open1: "run_body sched j cs (rounds N bd ?s @ q) st =
               run_body sched (Suc j) [reduce_code N bd ?s] (rounds N bd (2 ^ m) @ q) ?st1"
    by (simp only: r append_Cons append_Nil run_body.simps)
  obtain acc2 where run: "run_body sched (Suc j) [reduce_code N bd ?s] (rounds N bd (2 ^ m) @ q) ?st1
                    = run_body sched (Suc j + Suc m) [reduce_code N bd 1] q (acc2, snd ?st2)"
    and val: "\<forall>ty<bdy. \<forall>i<2. acc2 (int i + N * int ty) =
                tree_sum m (\<lambda>l. fst ?st2 (int (i + 2 * l) + N * int ty))"
    using Suc.IH[OF sm, of "Suc j" "[reduce_code N bd ?s]" ?st1] by blast
  have st2: "?st2 = (\<lambda>a. if 0 \<le> a \<and> a < N * int bdy \<and> a mod N < ?s
                          then fst ?st1 a + fst ?st1 (a + ?s) else fst ?st1 a,
                     snd ?st1)"
    using assms(3) Suc.prems by (intro interval_reduce[OF assms(1,2) s0]) simp_all
  have v: "acc2 (int i + N * int ty) =
           tree_sum (Suc m) (\<lambda>l. fst ?st1 (int (i + 2 * l) + N * int ty))"
    if ty: "ty < bdy" and i: "i < 2" for ty i
  proof -
    let ?F = "\<lambda>x. fst ?st1 (int x + N * int ty)"
    have "acc2 (int i + N * int ty) = tree_sum m (\<lambda>l. fst ?st2 (int (i + 2 * l) + N * int ty))"
      using val ty i by blast
    also have "\<dots> = tree_sum m (\<lambda>l. ?F (i + 2 * l) + ?F (i + 2 * (l + 2 ^ m)))"
    proof (rule tree_sum_cong)
      fix l :: nat assume l: "l < 2 ^ m"
      have "i + 2 * l < 2 * 2 ^ m" using i l by simp
      then have "int (i + 2 * l) < 2 * 2 ^ m"
        by (metis of_nat_less_iff of_nat_numeral of_nat_power of_nat_mult)
      then have lt: "int (i + 2 * l) < ?s" by simp
      have ltN: "int (i + 2 * l) < N" using lt Suc.prems by simp
      have "int (i + 2 * l) + N * int ty + ?s = int (i + 2 * (l + 2 ^ m)) + N * int ty"
        by simp
      then show "fst ?st2 (int (i + 2 * l) + N * int ty)
                 = ?F (i + 2 * l) + ?F (i + 2 * (l + 2 ^ m))"
        using row_slot[OF assms(2) ty ltN] lt by (simp only: st2 fst_conv) simp
    qed
    also have "\<dots> = tree_sum (Suc m) (\<lambda>l. ?F (i + 2 * l))"
      by (simp only: tree_sum.simps(2))
    finally show ?thesis .
  qed
  have "run_body sched j cs (rounds N bd ?s @ q) st =
        run_body sched (j + Suc (Suc m)) [reduce_code N bd 1] q (acc2, snd ?st1)"
    unfolding open1 run st2 by simp
  then show ?case using v by blast
qed

lemma run_vector:
  fixes N :: int and st :: "'a::{zero,one,plus,times} mem \<times> 'a mem"
  assumes "0 < g" "0 < bd" "N = 2 ^ Suc m"
    and "\<forall>j. distinct (sched j) \<and> set (sched j) = set (block_threads bd bdy)"
    and "vec < vN"
  shows "\<exists>acc2. run_body sched j cs (vectors N g bd A B vN eN vec @ q) st =
                  run_body sched (j + Suc m) [reduce_code N bd 1, write_code N vec]
                     (vectors N g bd A B vN eN (vec + int g) @ q)
                     (acc2, snd (run_interval (sched j)
                                   (cs @ [accumulate_code N bd A B (IMUL eN vec) (IMUL eN vec + eN)])
                                   st))
               \<and> (\<forall>ty<bdy. \<forall>i<2. acc2 (int i + N * int ty) =
                     tree_sum m (\<lambda>l. fst (run_interval (sched j)
                                   (cs @ [accumulate_code N bd A B (IMUL eN vec) (IMUL eN vec + eN)])
                                   st) (int (i + 2 * l) + N * int ty)))"
proof -
  let ?A = "accumulate_code N bd A B (IMUL eN vec) (IMUL eN vec + eN)"
  let ?q = "Code (write_code N vec) # vectors N g bd A B vN eN (vec + int g) @ q"
  have N0: "0 < N" using assms(3) by simp
  have half: "N div 2 = 2 ^ m" using assms(3) by simp
  have le: "2 * 2 ^ m \<le> N" using assms(3) by simp
  have open1: "run_body sched j cs (vectors N g bd A B vN eN vec @ q) st =
               run_body sched j (cs @ [?A]) (rounds N bd (2 ^ m) @ ?q) st"
    by (simp add: vectors_simps(1)[OF assms(5,1)] half)
  obtain acc2 where run: "run_body sched j (cs @ [?A]) (rounds N bd (2 ^ m) @ ?q) st =
                  run_body sched (j + Suc m) [reduce_code N bd 1] ?q
                     (acc2, snd (run_interval (sched j) (cs @ [?A]) st))"
    and val: "\<forall>ty<bdy. \<forall>i<2. acc2 (int i + N * int ty) =
                     tree_sum m (\<lambda>l. fst (run_interval (sched j) (cs @ [?A]) st)
                                        (int (i + 2 * l) + N * int ty))"
    using run_rounds[OF assms(2) N0 assms(4) le, of j "cs @ [?A]" ?q st] by blast
  have "run_body sched j cs (vectors N g bd A B vN eN vec @ q) st =
        run_body sched (j + Suc m) [reduce_code N bd 1, write_code N vec]
           (vectors N g bd A B vN eN (vec + int g) @ q)
           (acc2, snd (run_interval (sched j) (cs @ [?A]) st))"
    unfolding open1 run by simp
  then show ?thesis using val by blast
qed

text \<open>
  The accumulation loops end the interval in which they run with the partial sums of
  the lanes in the cache, whether they stand alone in it or follow the last round and
  the write of the vector before.
\<close>

lemma lanes_after:
  fixes N :: int and st :: "'a::{zero,one,plus,times} mem \<times> 'a mem"
  assumes "0 < bd" "1 < N" "distinct ts" "set ts = set (block_threads bd bdy)"
    and "cs = [] \<or> (\<exists>prev. cs = [reduce_code N bd 1, write_code N prev])"
    and "ty < bdy" "int l < N"
  shows "fst (run_interval ts (cs @ [accumulate_code N bd A B vb ve]) st) (int l + N * int ty)
         = dot_loop N A B ve (vb + int l) 0"
proof -
  have N0: "0 < N" using assms(2) by simp
  note rs = row_slot[OF N0 assms(6,7)]
  from assms(5) show ?thesis
  proof
    assume "cs = []"
    then show ?thesis
      using rs by (simp add: interval_accumulate[OF assms(1) N0 assms(4)])
  next
    assume "\<exists>prev. cs = [reduce_code N bd 1, write_code N prev]"
    then obtain prev where cs: "cs = [reduce_code N bd 1, write_code N prev]" by blast
    have "fst (run_interval ts
                [reduce_code N bd 1, write_code N prev, accumulate_code N bd A B vb ve]
                (fst st, snd st)) =
           (\<lambda>a. if 0 \<le> a \<and> a < N * int bdy then dot_loop N A B ve (vb + a mod N) 0 else fst st a)"
      by (rule interval_tail(1)[OF assms(1,2,3,4)])
    then show ?thesis using rs by (simp add: cs)
  qed
qed

subsection \<open>What a block leaves in a slot\<close>

text \<open>
  The slot \<open>v + 256 * ty\<close> after the body of a block that processes \<open>v\<close> and writes the
  slot for no later vector.  The last round adds the tree sums over the even and over
  the odd lanes of \<open>v\<close>.  When the block goes on to the vector \<open>v + gridDim.x\<close> and, in
  the interval \<open>j'\<close> after the last barrier of \<open>v\<close>, the thread \<open>(1, ty)\<close> runs before the
  thread \<open>(0, ty)\<close>, then the second summand is the partial sum of lane \<open>1\<close> of the next
  vector instead.
\<close>

lemma block_value:
  fixes N :: int and st :: "'a::{zero,one,plus,times} mem \<times> 'a mem"
  assumes "0 < g" "0 < bd" "N = 2 ^ Suc m"
    and "\<forall>j. distinct (sched j) \<and> set (sched j) = set (block_threads bd bdy)"
    and "v \<in> lanes_of g vN vec" "ty < bdy" "a = v + 256 * int ty" "a \<noteq> 0 \<or> b \<noteq> 0"
    and "\<forall>vec'\<in>lanes_of g vN (v + int g). \<forall>ty'<bdy. a \<noteq> vec' + 256 * int ty'"
    and "cs = [] \<or> (\<exists>prev. cs = [reduce_code N bd 1, write_code N prev])"
  shows "\<exists>j'. snd (run_body sched j cs
                     (vectors N g bd A B vN eN vec @ [Code (sentinel_code b)]) st) a =
           tree_sum m (\<lambda>l. dot_loop N A B (IMUL eN v + eN) (IMUL eN v + int (2 * l)) 0)
           + (if v + int g < vN \<and> (1, ty) \<in> set (takeWhile (\<lambda>x. x \<noteq> (0, ty)) (sched j'))
              then dot_loop N A B (IMUL eN (v + int g) + eN) (IMUL eN (v + int g) + 1) 0
              else tree_sum m (\<lambda>l. dot_loop N A B (IMUL eN v + eN)
                                      (IMUL eN v + int (2 * l + 1)) 0))"
  using assms(5,10)
proof (induction "nat (vN - vec)" arbitrary: vec cs j st rule: less_induct)
  case less
  let ?S = "[Code (sentinel_code b)]"
  let ?r1 = "reduce_code N bd 1"
  let ?vb = "IMUL eN vec"
  let ?A = "accumulate_code N bd A B ?vb (?vb + eN)"
  let ?st1 = "run_interval (sched j) (cs @ [?A]) st"
  let ?D = "\<lambda>x :: nat. dot_loop N A B (?vb + eN) (?vb + int x) 0"
  have vlt: "vec < vN" using less.prems(1) by (auto simp: lanes_of_def)
  have N0: "0 < N" and N2: "N = 2 * 2 ^ m" using assms(3) by simp_all
  have "(1::int) \<le> 2 ^ m" by simp
  then have N1: "1 < N" using N2 by linarith
  have dj: "distinct (sched j)" "set (sched j) = set (block_threads bd bdy)" for j
    using assms(4) by simp_all
  have stp: "lanes_of g vN vec = insert vec (lanes_of g vN (vec + int g))"
    using assms(1) vlt by (rule lanes_of_step)
  have meas: "nat (vN - (vec + int g)) < nat (vN - vec)" using assms(1) vlt by simp
  obtain acc2 where
    run: "run_body sched j cs (vectors N g bd A B vN eN vec @ ?S) st =
            run_body sched (j + Suc m) [?r1, write_code N vec]
               (vectors N g bd A B vN eN (vec + int g) @ ?S) (acc2, snd ?st1)"
    and val: "\<forall>ty<bdy. \<forall>i<2. acc2 (int i + N * int ty) =
                tree_sum m (\<lambda>l. fst ?st1 (int (i + 2 * l) + N * int ty))"
    using run_vector[OF assms(1,2,3,4) vlt, of j cs A B eN ?S st] by blast
  have pair: "acc2 (int i + N * int ty') = tree_sum m (\<lambda>l. ?D (i + 2 * l))"
    if ty': "ty' < bdy" and i: "i < 2" for ty' i
  proof -
    have "acc2 (int i + N * int ty') = tree_sum m (\<lambda>l. fst ?st1 (int (i + 2 * l) + N * int ty'))"
      using val ty' i by blast
    also have "\<dots> = tree_sum m (\<lambda>l. ?D (i + 2 * l))"
    proof (rule tree_sum_cong)
      fix l :: nat assume l: "l < 2 ^ m"
      have "i + 2 * l < 2 * 2 ^ m" using i l by simp
      then have "int (i + 2 * l) < 2 * 2 ^ m"
        by (metis of_nat_less_iff of_nat_numeral of_nat_power of_nat_mult)
      then have ltN: "int (i + 2 * l) < N" using N2 by simp
      show "fst ?st1 (int (i + 2 * l) + N * int ty') = ?D (i + 2 * l)"
        by (rule lanes_after[OF assms(2) N1 dj less.prems(2) ty' ltN])
    qed
    finally show ?thesis .
  qed
  have p0: "acc2 (N * int ty') = tree_sum m (\<lambda>l. ?D (2 * l))" if "ty' < bdy" for ty'
    using pair[OF that, of 0] by simp
  have p1: "acc2 (N * int ty' + 1) = tree_sum m (\<lambda>l. ?D (2 * l + 1))" if "ty' < bdy" for ty'
    using pair[OF that, of 1] by (simp add: add.commute)
  show ?case
  proof (cases "v = vec")
    case True
    show ?thesis
    proof (cases "v + int g < vN")
      case False
      then have nil: "vectors N g bd A B vN eN (vec + int g) = []"
        using True by (simp add: vectors_simps(2))
      have "run_body sched j cs (vectors N g bd A B vN eN vec @ ?S) st =
            run_interval (sched (j + Suc m)) [?r1, write_code N vec, sentinel_code b]
              (acc2, snd ?st1)"
        unfolding run nil by simp
      moreover have "snd (run_interval (sched (j + Suc m))
                            [?r1, write_code N vec, sentinel_code b] (acc2, snd ?st1)) a
                     = acc2 (N * int ty) + acc2 (N * int ty + 1)"
        using assms(7) True
        by (intro interval_last(1)[OF assms(2) N1 dj assms(8) assms(6)]) simp
      ultimately have "snd (run_body sched j cs (vectors N g bd A B vN eN vec @ ?S) st) a =
            tree_sum m (\<lambda>l. ?D (2 * l)) + tree_sum m (\<lambda>l. ?D (2 * l + 1))"
        using p0[OF assms(6)] p1[OF assms(6)] by simp
      then show ?thesis using False True by simp
    next
      case nxt: True
      let ?vec' = "vec + int g"
      let ?A' = "accumulate_code N bd A B (IMUL eN ?vec') (IMUL eN ?vec' + eN)"
      let ?st2 = "(acc2, snd ?st1)"
      let ?st3 = "run_interval (sched (j + Suc m)) [?r1, write_code N vec, ?A'] ?st2"
      have vlt': "?vec' < vN" using nxt True by simp
      obtain acc3 where
        run2: "run_body sched (j + Suc m) [?r1, write_code N vec]
                 (vectors N g bd A B vN eN ?vec' @ ?S) ?st2 =
               run_body sched (j + Suc m + Suc m) [?r1, write_code N ?vec']
                 (vectors N g bd A B vN eN (?vec' + int g) @ ?S) (acc3, snd ?st3)"
        using run_vector[OF assms(1,2,3,4) vlt', of "j + Suc m" "[?r1, write_code N vec]"
                A B eN ?S ?st2]
        unfolding append_Cons append_Nil by blast
      have stp': "lanes_of g vN ?vec' = insert ?vec' (lanes_of g vN (?vec' + int g))"
        using assms(1) vlt' by (rule lanes_of_step)
      have later: "\<forall>vec''\<in>lanes_of g vN ?vec'. \<forall>ty'<bdy. a \<noteq> vec'' + 256 * int ty'"
        using assms(9) True by simp
      have fr: "snd (run_body sched (j + Suc m + Suc m) [?r1, write_code N ?vec']
                       (vectors N g bd A B vN eN (?vec' + int g) @ ?S) (acc3, snd ?st3)) a
                = snd (acc3, snd ?st3) a"
      proof (rule body_frame[OF _ assms(8)])
        show "\<forall>j. set (sched j) = set (block_threads bd bdy)" using assms(4) by simp
        show "\<forall>vec''\<in>lanes_of g vN (?vec' + int g). \<forall>ty'<bdy. a \<noteq> vec'' + 256 * int ty'"
          using later stp' by simp
        show "[?r1, write_code N ?vec'] = [] \<or>
              (\<exists>prev. [?r1, write_code N ?vec'] = [?r1, write_code N prev]
                       \<and> (\<forall>ty<bdy. a \<noteq> prev + 256 * int ty))"
          using later stp' by auto
      qed
      have "snd ?st3 (vec + 256 * int ty) =
            acc2 (N * int ty)
            + (if (1, ty) \<in> set (takeWhile (\<lambda>x. x \<noteq> (0, ty)) (sched (j + Suc m)))
               then dot_loop N A B (IMUL eN ?vec' + eN) (IMUL eN ?vec' + 1) 0
               else acc2 (N * int ty + 1))"
        by (rule interval_tail(2)[OF assms(2) N1 dj assms(6)])
      then have "snd (run_body sched j cs (vectors N g bd A B vN eN vec @ ?S) st) a =
            tree_sum m (\<lambda>l. ?D (2 * l))
            + (if (1, ty) \<in> set (takeWhile (\<lambda>x. x \<noteq> (0, ty)) (sched (j + Suc m)))
               then dot_loop N A B (IMUL eN ?vec' + eN) (IMUL eN ?vec' + 1) 0
               else tree_sum m (\<lambda>l. ?D (2 * l + 1)))"
        unfolding run run2 fr using assms(7) True p0[OF assms(6)] p1[OF assms(6)] by simp
      then show ?thesis using nxt True by (intro exI[of _ "j + Suc m"]) simp
    qed
  next
    case False
    then have in': "v \<in> lanes_of g vN (vec + int g)" using less.prems(1) stp by simp
    have pend: "[?r1, write_code N vec] = [] \<or>
                (\<exists>prev. [?r1, write_code N vec] = [?r1, write_code N prev])" by blast
    show ?thesis
      unfolding run by (rule less.hyps[OF meas in' pend])
  qed
qed


subsection \<open>The last statement of the kernel\<close>




lemma fold_snd:
  "fold (\<lambda>t st. (fst st, F t (snd st))) ts st = (fst st, fold F ts (snd st))"
  by (induction ts arbitrary: st) simp_all

lemma run_block_no_vectors:
  fixes dC :: "'a::{zero,one,plus,times} mem"
  assumes "vN \<le> 0" "(0, 0) \<in> set (sched b 0)"
  shows "run_block N g bd A B vN eN sched acc0 b dC = (if b = 0 then dC(0 := 1) else dC)"
proof -
  let ?W = "\<lambda>t :: nat \<times> nat. if sentinel_thread b t then {0::int} else {}"
  have nil: "vectors N g bd A B vN eN (int b) = []"
    using assms(1) by (simp add: vectors_simps(2))
  have th: "write_sentinel b = (\<lambda>t (m :: 'a mem) a. if a \<in> ?W t then 1 else m a)"
    by (auto simp: write_sentinel_def fun_eq_iff)
  have "(\<exists>t\<in>set (sched b 0). a \<in> ?W t) \<longleftrightarrow> a = 0 \<and> b = 0" for a
    using assms(2) by (auto simp: sentinel_thread_def split: if_splits)
  then have f: "fold (write_sentinel b) (sched b 0) dC = (if b = 0 then dC(0 := 1) else dC)"
    unfolding th fold_overwrite by (auto simp: fun_eq_iff)
  have sc: "sentinel_code b = (\<lambda>t (st :: 'a mem \<times> 'a mem). (fst st, write_sentinel b t (snd st)))"
    by (intro ext) (simp add: sentinel_code_def)
  have "run_interval (sched b 0) [sentinel_code b] (acc0 b, dC)
        = fold (\<lambda>t st. (fst st, write_sentinel b t (snd st))) (sched b 0) (acc0 b, dC)"
    by (simp only: run_interval_single sc)
  also have "\<dots> = (fst (acc0 b, dC), fold (write_sentinel b) (sched b 0) (snd (acc0 b, dC)))"
    by (rule fold_snd)
  finally have "run_interval (sched b 0) [sentinel_code b] (acc0 b, dC)
             = (acc0 b, fold (write_sentinel b) (sched b 0) dC)"
    by simp
  then show ?thesis
    by (simp add: run_block_def kernel_body_def nil f)
qed

subsection \<open>Blocks and the grid\<close>





subsection \<open>A kernel with a single accumulator\<close>









subsection \<open>The kernel launch\<close>

lemma engine_run:
  assumes "0 < g" "0 < bd" "0 < bdy" "0 < N" "distinct blocks" "set blocks = {0..<g}"
    and "\<forall>b j. distinct (sched b j) \<and> set (sched b j) = set (block_threads bd bdy)"
    and "bdy \<le> 3 \<or> vN \<le> 0"
  shows "scalarProdGPU N g bd bdy blocks sched acc0 dC A B vN eN =
         Some (fold (run_block N g bd A B vN eN sched acc0) blocks dC)"
proof -
  have "list_all (\<lambda>b. sched_ok bd bdy (sched b) (kernel_body N g bd A B vN eN b)) blocks"
    using assms(7) by (simp add: list_all_iff sched_ok_def)
  then show ?thesis
    using assms(1-6,8) by (auto simp: scalarProdGPU_def)
qed






subsection \<open>The reference in exact arithmetic\<close>

text \<open>
  Where addition is associative and commutative the reference is the dot product
  itself.  This evaluates the concrete runs below.
\<close>

lemma tree_sum_exact:
  fixes f :: "nat \<Rightarrow> 'a::comm_semiring_1"
  shows "tree_sum k f = (\<Sum>i<2 ^ k. f i)"
proof (induction k arbitrary: f)
  case 0
  then show ?case by simp
next
  case (Suc k)
  have "tree_sum (Suc k) f = (\<Sum>i<2 ^ k. f i + f (i + 2 ^ k))"
    by (simp add: Suc.IH)
  also have "\<dots> = (\<Sum>i<2 ^ k. f i) + (\<Sum>i<2 ^ k. f (i + 2 ^ k))"
    by (rule sum.distrib)
  also have "(\<Sum>i<2 ^ k. f (i + 2 ^ k)) = (\<Sum>i = 2 ^ k..<2 ^ k + 2 ^ k. f i)"
    using sum.shift_bounds_nat_ivl[of f 0 "2 ^ k" "2 ^ k"] by (simp add: lessThan_atLeast0)
  also have "(\<Sum>i<2 ^ k. f i) + (\<Sum>i = 2 ^ k..<2 ^ k + 2 ^ k. f i) = (\<Sum>i<2 ^ k + 2 ^ k. f i)"
    using sum.atLeastLessThan_concat[of 0 "2 ^ k" "2 ^ k + 2 ^ k" f] by (simp add: lessThan_atLeast0)
  finally show ?case by (simp add: mult_2)
qed

lemma foldl_add:
  fixes s :: "'a::comm_semiring_1"
  shows "foldl (\<lambda>s i. s + h i) s xs = s + sum_list (map h xs)"
  by (induction xs arbitrary: s) (simp_all add: add.assoc)

lemma partial_sum_exact:
  fixes A :: "'a::comm_semiring_1 mem"
  shows "partial_sum M n A B base lane =
         (\<Sum>i\<in>{i \<in> {..<n}. i mod M = lane}. A (base + int i) * B (base + int i))"
proof -
  have "distinct (filter (\<lambda>i. i mod M = lane) [0..<n])" by simp
  moreover have "set (filter (\<lambda>i. i mod M = lane) [0..<n]) = {i \<in> {..<n}. i mod M = lane}"
    by auto
  ultimately show ?thesis
    by (simp add: partial_sum_def foldl_add sum_list_distinct_conv_sum_set)
qed

lemma reference_dot_exact:
  fixes A :: "'a::comm_semiring_1 mem"
  shows "reference_dot k n A B base = (\<Sum>i<n. A (base + int i) * B (base + int i))"
proof -
  have "reference_dot k n A B base =
        (\<Sum>lane<2 ^ k. \<Sum>i\<in>{i \<in> {..<n}. i mod 2 ^ k = lane}. A (base + int i) * B (base + int i))"
    by (simp add: reference_dot_def tree_sum_exact partial_sum_exact)
  also have "\<dots> = (\<Sum>i<n. A (base + int i) * B (base + int i))"
    by (rule sum.group) auto
  finally show ?thesis .
qed

subsection \<open>Concrete launches\<close>


lemma pair_sum_reference:
  fixes N :: int and A :: "'a::{zero,one,plus,times} mem"
  assumes "N = 2 ^ Suc m"
  shows "tree_sum m (\<lambda>l. dot_loop N A B (vb + eN) (vb + int (2 * l)) 0)
         + tree_sum m (\<lambda>l. dot_loop N A B (vb + eN) (vb + int (2 * l + 1)) 0)
         = reference_dot (Suc m) (nat eN) A B vb"
proof -
  let ?D = "\<lambda>x :: nat. dot_loop N A B (vb + eN) (vb + int x) 0"
  have N0: "0 < N" using assms by simp
  have nN: "nat N = 2 ^ Suc m" unfolding assms by (subst nat_power_eq) simp_all
  have "tree_sum m (\<lambda>l. ?D (2 * l)) + tree_sum m (\<lambda>l. ?D (2 * l + 1)) = tree_sum (Suc m) ?D"
    by (simp only: tree_sum_last)
  also have "\<dots> = tree_sum (Suc m) (partial_sum (2 ^ Suc m) (nat eN) A B vb)"
  proof (rule tree_sum_cong)
    fix i :: nat assume "i < 2 ^ Suc m"
    then have "i < nat N" by (simp only: nN)
    then show "?D i = partial_sum (2 ^ Suc m) (nat eN) A B vb i"
      using dot_loop_partial[OF N0, of i A B vb eN] nN by simp
  qed
  finally show ?thesis by (simp only: reference_dot_def)
qed

lemma even_sum_partial:
  fixes N :: int and A :: "'a::{zero,one,plus,times} mem"
  assumes "N = 2 ^ Suc m"
  shows "tree_sum m (\<lambda>l. dot_loop N A B (vb + eN) (vb + int (2 * l)) 0)
         = tree_sum m (\<lambda>l. partial_sum (2 ^ Suc m) (nat eN) A B vb (2 * l))"
proof (rule tree_sum_cong)
  fix l :: nat assume l: "l < 2 ^ m"
  have N0: "0 < N" using assms by simp
  have nN: "nat N = 2 ^ Suc m" unfolding assms by (subst nat_power_eq) simp_all
  have "2 * l < nat N" using l by (simp only: nN) simp
  then show "dot_loop N A B (vb + eN) (vb + int (2 * l)) 0
             = partial_sum (2 ^ Suc m) (nat eN) A B vb (2 * l)"
    using dot_loop_partial[OF N0, of "2 * l" A B vb eN] nN by simp
qed

text \<open>
  The body of a block under one order \<open>ts\<close> of the threads in all intervals.
\<close>

lemma run_block_uniform:
  fixes N :: int and dC :: "'a::{zero,one,plus,times} mem"
  assumes "0 < g" "0 < bd" "N = 2 ^ Suc m"
    and "distinct ts" "set ts = set (block_threads bd bdy)" "\<forall>j. sched bx j = ts"
    and "a \<noteq> 0 \<or> bx \<noteq> 0"
    and "v \<in> lanes_of g vN (int bx)" "ty < bdy" "a = v + 256 * int ty"
    and "\<forall>vec'\<in>lanes_of g vN (v + int g). \<forall>ty'<bdy. a \<noteq> vec' + 256 * int ty'"
  shows "run_block N g bd A B vN eN sched acc0 bx dC a =
           tree_sum m (\<lambda>l. dot_loop N A B (IMUL eN v + eN) (IMUL eN v + int (2 * l)) 0)
           + (if v + int g < vN \<and> (1, ty) \<in> set (takeWhile (\<lambda>x. x \<noteq> (0, ty)) ts)
              then dot_loop N A B (IMUL eN (v + int g) + eN) (IMUL eN (v + int g) + 1) 0
              else tree_sum m (\<lambda>l. dot_loop N A B (IMUL eN v + eN)
                                      (IMUL eN v + int (2 * l + 1)) 0))"
proof -
  have s: "\<forall>j. distinct (sched bx j) \<and> set (sched bx j) = set (block_threads bd bdy)"
    using assms(4,5,6) by simp
  have pend: "([] :: (nat \<times> nat \<Rightarrow> 'a mem \<times> 'a mem \<Rightarrow> 'a mem \<times> 'a mem) list) = []
              \<or> (\<exists>prev. ([] :: (nat \<times> nat \<Rightarrow> 'a mem \<times> 'a mem \<Rightarrow> 'a mem \<times> 'a mem) list)
                          = [reduce_code N bd 1, write_code N prev])"
    by simp
  obtain j' where
    "snd (run_body (sched bx) 0 []
            (vectors N g bd A B vN eN (int bx) @ [Code (sentinel_code bx)]) (acc0 bx, dC)) a =
       tree_sum m (\<lambda>l. dot_loop N A B (IMUL eN v + eN) (IMUL eN v + int (2 * l)) 0)
       + (if v + int g < vN \<and> (1, ty) \<in> set (takeWhile (\<lambda>x. x \<noteq> (0, ty)) (sched bx j'))
          then dot_loop N A B (IMUL eN (v + int g) + eN) (IMUL eN (v + int g) + 1) 0
          else tree_sum m (\<lambda>l. dot_loop N A B (IMUL eN v + eN)
                                  (IMUL eN v + int (2 * l + 1)) 0))"
    using block_value[where sched = "sched bx", OF assms(1,2,3) s assms(8,9,10,7,11) pend,
            of 0 A B eN "(acc0 bx, dC)"]
    by blast
  then show ?thesis
    using assms(6) by (simp add: run_block_def kernel_body_def)
qed

lemma block_threads_head:
  assumes "0 < bd" "0 < bdy"
  shows "\<exists>rest. block_threads bd bdy = (0, 0) # rest"
  using assms by (simp add: block_threads_def upt_conv_Cons)

lemma ascending_no_race:
  assumes "0 < bd" "0 < bdy"
  shows "takeWhile (\<lambda>x. x \<noteq> (0, 0)) (block_threads bd bdy) = []"
  using block_threads_head[OF assms] by auto

lemma descending_race:
  assumes "1 < bd" "0 < bdy"
  shows "(1, 0) \<in> set (takeWhile (\<lambda>x. x \<noteq> (0, 0)) (rev (block_threads bd bdy)))"
proof -
  obtain rest where r: "block_threads bd bdy = (0, 0) # rest"
    using block_threads_head[of bd bdy] assms by auto
  have d: "distinct ((0::nat, 0::nat) # rest)" using block_threads_distinct[of bd bdy] r by simp
  have "takeWhile (\<lambda>x. x \<noteq> (0, 0)) (rev rest @ [(0::nat, 0::nat)])
        = rev rest @ takeWhile (\<lambda>x. x \<noteq> (0, 0)) [(0, 0)]"
    by (rule takeWhile_append2) (use d in auto)
  then have "takeWhile (\<lambda>x. x \<noteq> (0, 0)) (rev (block_threads bd bdy)) = rev rest"
    by (simp add: r)
  moreover have "(1, 0) \<in> set (block_threads bd bdy)" using assms by (simp add: block_threads_mem)
  then have "(1, 0) \<in> set rest" using r by simp
  ultimately show ?thesis by simp
qed

lemma ascending_ok:
  "\<forall>b j. distinct (ascending bd bdy b j) \<and> set (ascending bd bdy b j) = set (block_threads bd bdy)"
  by (simp add: ascending_def block_threads_distinct)

lemma descending_ok:
  "\<forall>b j. distinct (descending bd bdy b j) \<and> set (descending bd bdy b j) = set (block_threads bd bdy)"
  by (simp add: descending_def block_threads_distinct)

lemma even_lanes_exact:
  fixes A :: "'a::comm_semiring_1 mem"
  shows "tree_sum m (\<lambda>l. partial_sum (2 ^ Suc m) (2 * n) A B base (2 * l))
         = (\<Sum>j<n. A (base + int (2 * j)) * B (base + int (2 * j)))"
proof -
  let ?h = "\<lambda>i. A (base + int i) * B (base + int i)"
  have inner: "(\<Sum>i\<in>{i \<in> {..<2 * n}. i mod 2 ^ Suc m = 2 * l}. ?h i)
               = (\<Sum>j\<in>{j \<in> {..<n}. j mod 2 ^ m = l}. ?h (2 * j))" for l
  proof (rule sum.reindex_bij_witness[of _ "\<lambda>j. 2 * j" "\<lambda>i. i div 2"])
    fix i assume i: "i \<in> {i \<in> {..<2 * n}. i mod 2 ^ Suc m = 2 * l}"
    then have lt: "i < 2 * n" and md: "i mod (2 * 2 ^ m) = 2 * l" by simp_all
    have ev: "even i"
    proof -
      have "even (i mod (2 * 2 ^ m))" by (simp only: md) simp
      then show ?thesis using dvd_mod_iff[of 2 "2 * 2 ^ m" i] by simp
    qed
    then show "2 * (i div 2) = i" by simp
    have "2 * ((i div 2) mod 2 ^ m) = (2 * (i div 2)) mod (2 * 2 ^ m)"
      by (simp only: mod_mult_mult1)
    also have "\<dots> = 2 * l" using ev md by simp
    finally have "(i div 2) mod 2 ^ m = l" by simp
    moreover have "i div 2 < n" using lt by simp
    ultimately show "i div 2 \<in> {j \<in> {..<n}. j mod 2 ^ m = l}" by simp
    show "?h (2 * (i div 2)) = ?h i" using ev by simp
  next
    fix j assume "j \<in> {j \<in> {..<n}. j mod 2 ^ m = l}"
    then have lt: "j < n" and md: "j mod 2 ^ m = l" by simp_all
    show "2 * j div 2 = j" by simp
    have "(2 * j) mod (2 * 2 ^ m) = 2 * (j mod 2 ^ m)" by (simp only: mod_mult_mult1)
    then show "2 * j \<in> {i \<in> {..<2 * n}. i mod 2 ^ Suc m = 2 * l}" using lt md by simp
  qed
  have "tree_sum m (\<lambda>l. partial_sum (2 ^ Suc m) (2 * n) A B base (2 * l))
        = (\<Sum>l<2 ^ m. \<Sum>j\<in>{j \<in> {..<n}. j mod 2 ^ m = l}. ?h (2 * j))"
    by (simp only: tree_sum_exact partial_sum_exact inner)
  also have "\<dots> = (\<Sum>j<n. ?h (2 * j))"
    by (rule sum.group) auto
  finally show ?thesis .
qed

lemma sum_arith:
  "2 * (\<Sum>i<n. a + d * int i) = int n * (2 * a + d * (int n - 1))"
  by (induction n) (simp_all add: algebra_simps)

lemma IMUL_eval:
  "IMUL 1 2 = 2" "IMUL 1 0 = 0" "IMUL 16777216 1 = 0" "IMUL 2000 1 = 2000" "IMUL 2000 2 = 4000"
  by (simp_all add: IMUL_def mul24_def)

lemma launch_1024: "ACCUM_N_1024 = 2 ^ 10" "ACCUM_N_1024 = 2 ^ Suc 9" "0 < ACCUM_N_1024"
  by (simp_all add: ACCUM_N_1024_def)

lemma all_blocks: "distinct [0..<n]" "set [0..<n] = {0..<n}"
  by simp_all





subsection \<open>The claims about the engine\<close>






lemma fold_sentinel_only:
  "fold (\<lambda>b d. if b = (0::nat) then d(0 := x) else d) bs (dC :: 'a mem) =
   (if 0 \<in> set bs then dC(0 := x) else dC)"
  by (induction bs arbitrary: dC) auto

text \<open>
  Claim C9 (no vectors).  For \<open>vectorN \<le> 0\<close> every run of a valid launch returns, and the
  array it returns is the initial \<open>d_C\<close> with slot \<open>0\<close> set to \<open>1\<close>.
\<close>

theorem engine_no_vectors:
  fixes ACCUM_N :: int and d_C :: "'a::{zero,one,plus,times} mem"
  assumes "0 < gridDim_x" "0 < blockDim_x" "0 < blockDim_y" "0 < ACCUM_N"
    and "distinct blocks" "set blocks = {0..<gridDim_x}"
    and "\<forall>b j. distinct (sched b j)
                \<and> set (sched b j) = set (block_threads blockDim_x blockDim_y)"
    and "vectorN \<le> 0"
  shows "scalarProdGPU ACCUM_N gridDim_x blockDim_x blockDim_y blocks sched accumResult0
           d_C d_A d_B vectorN elementN = Some (d_C(0 := 1))"
proof -
  have run: "scalarProdGPU ACCUM_N gridDim_x blockDim_x blockDim_y blocks sched accumResult0
               d_C d_A d_B vectorN elementN =
             Some (fold (run_block ACCUM_N gridDim_x blockDim_x d_A d_B vectorN elementN
                           sched accumResult0) blocks d_C)"
    using assms by (intro engine_run) simp_all
  have t0: "(0, 0) \<in> set (sched b 0)" for b
    using assms(2,3,7) by (simp add: block_threads_mem)
  have blk: "run_block ACCUM_N gridDim_x blockDim_x d_A d_B vectorN elementN sched accumResult0
             = (\<lambda>b d. if b = 0 then d(0 := 1) else d)"
    by (intro ext) (simp add: run_block_no_vectors[where sched = sched, OF assms(8) t0])
  have "0 \<in> set blocks" using assms(1,6) by simp
  then show ?thesis
    unfolding run blk fold_sentinel_only by simp
qed

theorem engine_no_vectors_witness:
  "scalarProdGPU ACCUM_N_1024 128 256 3 [0..<128] (ascending 256 3) (\<lambda>b i. 0) (\<lambda>i. 7)
     (\<lambda>i. 2) (\<lambda>i. 3) 0 4096
     = Some ((\<lambda>i. 7)(0 := (1::int)))"
  by (rule engine_no_vectors[OF _ _ _ launch_1024(3) all_blocks ascending_ok]) simp_all




text \<open>
  Claim C7 (determinism) fails on the kernel as written.  The launch
  \<^verbatim>\<open>scalarProdGPU<<<1, dim3(256, 1)>>>\<close> on \<open>3\<close> vectors of \<open>2000\<close> elements, with
  \<open>d_A[i] = i\<close> and \<open>d_B[i] = 1\<close>, has one block that processes the vectors \<open>0\<close>, \<open>1\<close>, \<open>2\<close>.
  After the last barrier of vector \<open>1\<close>, thread \<open>0\<close> adds \<^verbatim>\<open>accumResult[1]\<close> to
  \<^verbatim>\<open>accumResult[0]\<close> and writes \<open>d_C[1]\<close>, while thread \<open>1\<close> is free to run the
  accumulation loop of vector \<open>2\<close>, which stores lane \<open>1\<close>'s partial sum of vector \<open>2\<close> in
  \<^verbatim>\<open>accumResult[1]\<close>.  In the run where the threads take their turn by ascending
  \<^verbatim>\<open>threadIdx.x\<close> the kernel ends with \<open>d_C[1] = 5999000\<close>, the sum over vector \<open>1\<close>; in
  the run where they take it in descending order it ends with \<open>d_C[1] = 3008026\<close>, the
  sum over the even lanes of vector \<open>1\<close> plus \<open>4001 + 5025\<close>.  Both runs have the same
  launch, the same inputs and the same initial memory.
\<close>

theorem engine_race:
  "map_option (\<lambda>d_C'. d_C' 1)
     (scalarProdGPU ACCUM_N_1024 1 256 1 [0] (ascending 256 1) (\<lambda>b i. 0) (\<lambda>i. 0)
        (\<lambda>i. i) (\<lambda>i. 1) 3 2000) = Some (5999000::int)
   \<and> map_option (\<lambda>d_C'. d_C' 1)
        (scalarProdGPU ACCUM_N_1024 1 256 1 [0] (descending 256 1) (\<lambda>b i. 0) (\<lambda>i. 0)
           (\<lambda>i. i) (\<lambda>i. 1) 3 2000) = Some (3008026::int)
   \<and> reference_dot 10 (nat 2000) (\<lambda>i. i) (\<lambda>i. 1) (1 * 2000) = (5999000::int)
   \<and> scalarProdGPU ACCUM_N_1024 1 256 1 [0] (ascending 256 1) (\<lambda>b i. 0) (\<lambda>i. 0)
        (\<lambda>i. i) (\<lambda>i. 1 :: int) 3 2000
      \<noteq> scalarProdGPU ACCUM_N_1024 1 256 1 [0] (descending 256 1) (\<lambda>b i. 0) (\<lambda>i. 0)
        (\<lambda>i. i) (\<lambda>i. 1) 3 2000"
proof -
  let ?A = "\<lambda>i::int. i" and ?B = "\<lambda>i::int. 1::int"
  let ?up = "run_block ACCUM_N_1024 1 256 ?A ?B 3 2000 (ascending 256 1) (\<lambda>b i. 0)"
  let ?down = "run_block ACCUM_N_1024 1 256 ?A ?B 3 2000 (descending 256 1) (\<lambda>b i. 0)"
  let ?even = "tree_sum 9 (\<lambda>l. dot_loop ACCUM_N_1024 ?A ?B (IMUL 2000 1 + 2000)
                                  (IMUL 2000 1 + int (2 * l)) 0)"
  let ?odd = "tree_sum 9 (\<lambda>l. dot_loop ACCUM_N_1024 ?A ?B (IMUL 2000 1 + 2000)
                                 (IMUL 2000 1 + int (2 * l + 1)) 0)"
  let ?next = "dot_loop ACCUM_N_1024 ?A ?B (IMUL 2000 (1 + int 1) + 2000)
                 (IMUL 2000 (1 + int 1) + 1) 0"
  have one: "distinct [0::nat]" "set [0::nat] = {0..<1}" by auto
  have run_up: "scalarProdGPU ACCUM_N_1024 1 256 1 [0] (ascending 256 1) (\<lambda>b i. 0) (\<lambda>i. 0)
                  ?A ?B 3 2000 = Some (fold ?up [0] (\<lambda>i. 0))"
    by (rule engine_run[OF _ _ _ launch_1024(3) one ascending_ok]) simp_all
  have run_down: "scalarProdGPU ACCUM_N_1024 1 256 1 [0] (descending 256 1) (\<lambda>b i. 0) (\<lambda>i. 0)
                  ?A ?B 3 2000 = Some (fold ?down [0] (\<lambda>i. 0))"
    by (rule engine_run[OF _ _ _ launch_1024(3) one descending_ok]) simp_all
  have in_b: "1 \<in> lanes_of 1 3 (int 0)" by (simp add: lanes_of_def)
  have later: "\<forall>vec'\<in>lanes_of 1 3 (1 + int 1). \<forall>ty'<1. (1::int) \<noteq> vec' + 256 * int ty'"
    by (simp add: lanes_of_def)
  have up: "?up 0 (\<lambda>i. 0) 1 =
            ?even + (if 1 + int 1 < (3::int)
                        \<and> (1, 0) \<in> set (takeWhile (\<lambda>x. x \<noteq> (0, 0)) (block_threads 256 1))
                     then ?next else ?odd)"
    by (rule run_block_uniform[OF _ _ launch_1024(2) block_threads_distinct refl _ _ in_b _ _ later])
       (simp_all add: ascending_def)
  have down: "?down 0 (\<lambda>i. 0) 1 =
            ?even + (if 1 + int 1 < (3::int)
                        \<and> (1, 0) \<in> set (takeWhile (\<lambda>x. x \<noteq> (0, 0)) (rev (block_threads 256 1)))
                     then ?next else ?odd)"
    by (rule run_block_uniform[OF _ _ launch_1024(2) _ _ _ _ in_b _ _ later])
       (simp_all add: descending_def block_threads_distinct)
  have ref: "?even + ?odd = reference_dot (Suc 9) (nat 2000) ?A ?B (IMUL 2000 1)"
    by (rule pair_sum_reference[OF launch_1024(2)])
  have "2 * (\<Sum>i<2000. 2000 + 1 * int i) = int 2000 * (2 * 2000 + 1 * (int 2000 - 1))"
    by (rule sum_arith)
  then have full: "(\<Sum>i<2000. 2000 + int i) = 5999000" by simp
  have r: "reference_dot 10 (nat 2000) ?A ?B (1 * 2000) = 5999000"
    using full by (simp add: reference_dot_exact)
  have v_up: "?up 0 (\<lambda>i. 0) 1 = 5999000"
    using up r ref by (simp add: ascending_no_race IMUL_eval)
  have "?even = tree_sum 9 (\<lambda>l. partial_sum (2 ^ Suc 9) (nat 2000) ?A ?B (IMUL 2000 1) (2 * l))"
    by (rule even_sum_partial[OF launch_1024(2)])
  also have "\<dots> = tree_sum 9 (\<lambda>l. partial_sum (2 ^ Suc 9) (2 * 1000) ?A ?B 2000 (2 * l))"
    by (simp add: IMUL_eval)
  also have "\<dots> = (\<Sum>j<1000. ?A (2000 + int (2 * j)) * ?B (2000 + int (2 * j)))"
    by (rule even_lanes_exact)
  also have "\<dots> = (\<Sum>j<1000. 2000 + 2 * int j)" by simp
  finally have ev: "?even = (\<Sum>j<1000. 2000 + 2 * int j)" .
  have "2 * (\<Sum>j<1000. 2000 + 2 * int j) = int 1000 * (2 * 2000 + 2 * (int 1000 - 1))"
    by (rule sum_arith)
  then have even: "?even = 2999000" using ev by simp
  have "dot_loop ACCUM_N_1024 ?A ?B 6000 4001 0 = 0 + 4001 * 1 + 5025 * 1"
    by (subst dot_loop.simps, simp add: ACCUM_N_1024_def)+
  then have nxt: "?next = 9026" by (simp add: IMUL_eval)
  have v_down: "?down 0 (\<lambda>i. 0) 1 = 3008026"
    using down even nxt descending_race[of 256 1] by (simp add: IMUL_eval)
  have ne: "fold ?up [0] (\<lambda>i. 0) \<noteq> fold ?down [0] (\<lambda>i. 0)"
  proof
    assume "fold ?up [0] (\<lambda>i. 0) = fold ?down [0] (\<lambda>i. 0)"
    then have "?up 0 (\<lambda>i. 0) 1 = ?down 0 (\<lambda>i. 0) 1" by simp
    then show False by (simp only: v_up v_down)
  qed
  show ?thesis
    using v_up v_down r ne run_up run_down by simp
qed

subsection \<open>Runs computed by the definitions\<close>

text \<open>
  A kernel with two accumulators and two threads in one row, on three vectors of two
  elements with \<open>d_A[i] = i\<close> and \<open>d_B[i] = 1\<close>: with the threads in ascending order
  \<open>d_C[1]\<close> is \<open>2 + 3\<close>; in descending order thread \<open>1\<close> has stored \<open>5\<close>, the lane \<open>1\<close> of
  vector \<open>2\<close>, before thread \<open>0\<close> adds the two lanes of vector \<open>1\<close>, and \<open>d_C[1]\<close> is
  \<open>2 + 5\<close>.  With a single accumulator the order does not matter.
\<close>

lemma engine_small_race:
  "map_option (\<lambda>d_C'. map d_C' [0, 1, 2])
     (scalarProdGPU 2 1 2 1 [0] (ascending 2 1) (\<lambda>b i. 0) (\<lambda>i. 0) (\<lambda>i. i) (\<lambda>i. 1) 3 2)
   = Some [1, 5, 9 :: int]"
  "map_option (\<lambda>d_C'. map d_C' [0, 1, 2])
     (scalarProdGPU 2 1 2 1 [0] (descending 2 1) (\<lambda>b i. 0) (\<lambda>i. 0) (\<lambda>i. i) (\<lambda>i. 1) 3 2)
   = Some [1, 7, 9 :: int]"
  "map_option (\<lambda>d_C'. map d_C' [0, 1, 2])
     (scalarProdGPU 1 1 2 1 [0] (descending 2 1) (\<lambda>b i. 0) (\<lambda>i. 0) (\<lambda>i. i) (\<lambda>i. 1) 3 2)
   = Some [1, 5, 9 :: int]"
  by code_simp+

lemma voter_scenario_run:
  "map_option (\<lambda>(result', out). (map result' [0, 1, 2, 3], out))
     (check_correctness 1 4 scenario 4)
   = Some ([0x3F800000, 0x40000000, 0x40400000, 0x40800000],
           [(3, DUE 0x40800000 0x40E00000 0x41000000)])"
  by code_simp

end
